theory Spec2Isabelle
  imports Complex_Main "HOL-Library.Word"
begin

section \<open>Python values and control flow\<close>

text \<open>
  The exceptions the modelled code can raise. A function that may raise returns
  \<open>error + 'a\<close>, with \<open>Inl\<close> for the exception.
\<close>

datatype error = IndexError | ValueError | TypeError

text \<open>
  \<open>for x in xs: body\<close> over a mutable state: the body is run on every element in order,
  and the first exception leaves the loop.
\<close>

fun for_each :: "'i list \<Rightarrow> ('i \<Rightarrow> 's \<Rightarrow> error + 's) \<Rightarrow> 's \<Rightarrow> error + 's" where
  "for_each [] body s = Inr s"
| "for_each (x # xs) body s =
     (case body x s of Inl e \<Rightarrow> Inl e | Inr s' \<Rightarrow> for_each xs body s')"

text \<open>
  \<open>xs.index(x)\<close>: the position of the first element equal to \<open>x\<close>; Python raises
  ValueError when there is none, here \<open>None\<close>.
\<close>

fun list_index :: "'a list \<Rightarrow> 'a \<Rightarrow> nat option" where
  "list_index [] x = None"
| "list_index (y # ys) x = (if y = x then Some 0 else map_option Suc (list_index ys x))"

section \<open>Feedback (solver.py and simulate\_wordle.py, \<open>get_feedback\<close>)\<close>

text \<open>
  A feedback is a list of five marks: 0 (absent), 1 (present), 2 (correct). Both modules
  define the same function; solver.py returns the marks as a tuple, simulate\_wordle.py
  as a list. The working copy \<open>answer_letters\<close> holds \<open>None\<close> where a letter has been
  used up.

  Words are Python strings of lowercase letters; a \<open>string\<close> here is a list of
  one-byte characters, which covers them.
\<close>

type_synonym feedback = "nat list"

text \<open>
  First loop: \<open>if guess[i] == answer[i]: feedback[i] = 2; answer_letters[i] = None\<close>.
  Reading \<open>guess[i]\<close> or \<open>answer[i]\<close> past the end raises IndexError.
\<close>

fun pass1_body :: "string \<Rightarrow> string \<Rightarrow> nat \<Rightarrow> feedback \<times> char option list \<Rightarrow>
    error + (feedback \<times> char option list)" where
  "pass1_body guess answer i (fb, al) =
     (if length guess \<le> i \<or> length answer \<le> i then Inl IndexError
      else if guess ! i = answer ! i then Inr (fb[i := 2], al[i := None])
      else Inr (fb, al))"

text \<open>
  Second loop: \<open>if feedback[i] == 0 and guess[i] in answer_letters: feedback[i] = 1;
  answer_letters[answer_letters.index(guess[i])] = None\<close>.
\<close>

fun pass2_body :: "string \<Rightarrow> nat \<Rightarrow> feedback \<times> char option list \<Rightarrow>
    error + (feedback \<times> char option list)" where
  "pass2_body guess i (fb, al) =
     (if fb ! i = 0 then
        (if length guess \<le> i then Inl IndexError
         else if Some (guess ! i) \<in> set al then
           (case list_index al (Some (guess ! i)) of
              None \<Rightarrow> Inl ValueError
            | Some k \<Rightarrow> Inr (fb[i := 1], al[k := None]))
         else Inr (fb, al))
      else Inr (fb, al))"

definition get_feedback :: "string \<Rightarrow> string \<Rightarrow> error + feedback" where
  "get_feedback guess answer =
     (case for_each [0..<5] (pass1_body guess answer) (replicate 5 0, map Some answer) of
        Inl e \<Rightarrow> Inl e
      | Inr s1 \<Rightarrow>
          (case for_each [0..<5] (pass2_body guess) s1 of
             Inl e \<Rightarrow> Inl e
           | Inr (fb, al) \<Rightarrow> Inr fb))"

text \<open>The number of positions of a guess that hold letter \<open>c\<close> and carry mark \<open>m\<close>.\<close>

definition marks :: "string \<Rightarrow> feedback \<Rightarrow> char \<Rightarrow> nat \<Rightarrow> nat" where
  "marks guess fb c m = length (filter (\<lambda>i. guess ! i = c \<and> fb ! i = m) [0..<5])"


text \<open>
  The two loops without the exception branches, the state after both loops, and the
  invariant of the second loop after \<open>n\<close> rounds; they are used in the proofs only.
\<close>

fun pass1_step :: "string \<Rightarrow> string \<Rightarrow> nat \<Rightarrow> feedback \<times> char option list \<Rightarrow>
    feedback \<times> char option list" where
  "pass1_step guess answer i (fb, al) =
     (if guess ! i = answer ! i then (fb[i := 2], al[i := None]) else (fb, al))"

fun pass2_step :: "string \<Rightarrow> nat \<Rightarrow> feedback \<times> char option list \<Rightarrow>
    feedback \<times> char option list" where
  "pass2_step guess i (fb, al) =
     (if fb ! i = 0 \<and> Some (guess ! i) \<in> set al
      then (fb[i := 1], al[the (list_index al (Some (guess ! i))) := None])
      else (fb, al))"

definition feedback_run :: "string \<Rightarrow> string \<Rightarrow> feedback \<times> char option list" where
  "feedback_run g a =
     fold (pass2_step g) [0..<5] (fold (pass1_step g a) [0..<5] (replicate 5 0, map Some a))"

definition pass2_inv :: "string \<Rightarrow> string \<Rightarrow> nat \<Rightarrow> feedback \<times> char option list \<Rightarrow> bool" where
  "pass2_inv g a n s =
     (case s of (fb, al) \<Rightarrow>
        length fb = 5 \<and> length al = length a \<and>
        (\<forall>i<5. fb ! i = 2 \<longleftrightarrow> g ! i = a ! i) \<and>
        (\<forall>i<5. fb ! i \<le> 2) \<and>
        (\<forall>i<5. n \<le> i \<longrightarrow> fb ! i \<noteq> 1) \<and>
        (\<forall>c. count_list al (Some c) + length (filter (\<lambda>i. g ! i = c \<and> fb ! i = 1) [0..<n])
           = length (filter (\<lambda>k. a ! k = c \<and> g ! k \<noteq> a ! k) [0..<5])))"

section \<open>Filtering the candidates (solver.py, \<open>filter_words\<close>)\<close>

text \<open>
  \<open>[w for w in words if get_feedback(guess, w) == feedback]\<close>: a new list, in the order
  of \<open>words\<close>; an exception of \<open>get_feedback\<close> ends the comprehension. The function only
  reads \<open>words\<close>.
\<close>

fun filter_words :: "string list \<Rightarrow> string \<Rightarrow> feedback \<Rightarrow> error + string list" where
  "filter_words [] guess feedback = Inr []"
| "filter_words (w # ws) guess feedback =
     (case get_feedback guess w of
        Inl e \<Rightarrow> Inl e
      | Inr f \<Rightarrow>
          (case filter_words ws guess feedback of
             Inl e \<Rightarrow> Inl e
           | Inr r \<Rightarrow> Inr (if f = feedback then w # r else r)))"

text \<open>
  Python lists and numpy arrays are objects, and a variable or an attribute holds a
  reference to one; the caller of \<open>filter_words\<close> passes the reference of its list. To
  say which objects a call writes, the objects live in a store: the list at every
  reference, and the first reference not in use. The comprehension builds a new list
  object and writes to no other.
\<close>

record 'a store =
  cells :: "nat \<Rightarrow> 'a list"
  fresh :: nat

definition new_object :: "'a store \<Rightarrow> 'a list \<Rightarrow> nat \<times> 'a store" where
  "new_object h xs = (fresh h, h\<lparr>cells := (cells h)(fresh h := xs), fresh := Suc (fresh h)\<rparr>)"

definition filter_words_ref ::
    "string store \<Rightarrow> nat \<Rightarrow> string \<Rightarrow> feedback \<Rightarrow> (error + nat) \<times> string store" where
  "filter_words_ref h words_ref guess feedback =
     (case filter_words (cells h words_ref) guess feedback of
        Inl e \<Rightarrow> (Inl e, h)
      | Inr r \<Rightarrow> (case new_object h r of (ref, h') \<Rightarrow> (Inr ref, h')))"

section \<open>Floating-point arithmetic\<close>

text \<open>
  The entropies are Python floats (IEEE doubles). Every finite double is a real number and
  doubles compare as their values do, so a float is a \<open>real\<close> here; the rounded operations
  the code uses are parameters of the model: \<open>/\<close>, \<open>*\<close>, \<open>+\<close>, \<open>math.log2\<close> (\<open>np.log2\<close>)
  and \<open>np.sum\<close>.
\<close>

record float_ops =
  fl_div :: "real \<Rightarrow> real \<Rightarrow> real"
  fl_mul :: "real \<Rightarrow> real \<Rightarrow> real"
  fl_add :: "real \<Rightarrow> real \<Rightarrow> real"
  fl_log2 :: "real \<Rightarrow> real"
  fl_sum :: "real list \<Rightarrow> real"

text \<open>
  What the selection loops need of the arithmetic: a count over a total is in (0, 1], its
  reciprocal is at least 1, the logarithm of such a number is not negative, and products and
  sums of non-negative numbers are not negative. Rounding to nearest keeps all of them on
  the numbers that occur, counts and lengths of lists in memory and what is computed from
  them; an arithmetic that agrees with the doubles there and is exact elsewhere has the
  property as it is stated, for all arguments.
\<close>

definition fl_sane :: "float_ops \<Rightarrow> bool" where
  "fl_sane fl \<longleftrightarrow>
     (\<forall>c n::nat. 0 < c \<and> c \<le> n \<longrightarrow> 0 < fl_div fl (real c) (real n) \<and> fl_div fl (real c) (real n) \<le> 1) \<and>
     (\<forall>p. 0 < p \<and> p \<le> 1 \<longrightarrow> 1 \<le> fl_div fl 1 p) \<and>
     (\<forall>x. 1 \<le> x \<longrightarrow> 0 \<le> fl_log2 fl x) \<and>
     (\<forall>x y. 0 \<le> x \<and> 0 \<le> y \<longrightarrow> 0 \<le> fl_mul fl x y) \<and>
     (\<forall>x y. 0 \<le> x \<and> 0 \<le> y \<longrightarrow> 0 \<le> fl_add fl x y) \<and>
     (\<forall>xs. (\<forall>x\<in>set xs. 0 \<le> x) \<longrightarrow> 0 \<le> fl_sum fl xs)"

text \<open>The operations without rounding.\<close>

definition exact_ops :: float_ops where
  "exact_ops = \<lparr>fl_div = (/), fl_mul = (*), fl_add = (+), fl_log2 = log 2, fl_sum = sum_list\<rparr>"

section \<open>Entropy of a guess (solver.py, \<open>entropy_for_guess\<close>)\<close>

text \<open>
  \<open>buckets = defaultdict(int)\<close> keeps its keys in the order of their first insertion, and
  \<open>buckets.values()\<close> is read in that order: an association list.
  \<open>buckets[k] += 1\<close> is \<open>bump\<close>.
\<close>

fun bump :: "(feedback \<times> nat) list \<Rightarrow> feedback \<Rightarrow> (feedback \<times> nat) list" where
  "bump [] k = [(k, 1)]"
| "bump ((k', c) # kvs) k = (if k' = k then (k', c + 1) # kvs else (k', c) # bump kvs k)"

text \<open>
  \<open>for count in buckets.values(): p = count / total; entropy += p * math.log2(1 / p)\<close>,
  from \<open>entropy = 0.0\<close>. Every count is at least 1 and at most \<open>total\<close>, so the divisions
  and the logarithm do not raise.
\<close>

definition entropy_sum :: "float_ops \<Rightarrow> nat list \<Rightarrow> nat \<Rightarrow> real" where
  "entropy_sum fl counts total_n =
     fold (\<lambda>count entropy.
             let p = fl_div fl (real count) (real total_n)
             in fl_add fl entropy (fl_mul fl p (fl_log2 fl (fl_div fl 1 p))))
          counts 0"

text \<open>The body of \<open>entropy_for_guess\<close> after the cache lookup has missed.\<close>

definition compute_entropy :: "float_ops \<Rightarrow> string \<Rightarrow> string list \<Rightarrow> error + real" where
  "compute_entropy fl guess possible_answers =
     (case for_each possible_answers
             (\<lambda>answer buckets.
                case get_feedback guess answer of
                  Inl e \<Rightarrow> Inl e
                | Inr fb \<Rightarrow> Inr (bump buckets fb))
             [] of
        Inl e \<Rightarrow> Inl e
      | Inr buckets \<Rightarrow> Inr (entropy_sum fl (map snd buckets) (length possible_answers)))"

text \<open>
  The module-level \<open>entropy_cache\<close>, a dict keyed by \<open>(guess, tuple(possible_answers))\<close>.
  The function returns its result and the cache it leaves behind; an exception leaves the
  cache as it was.
\<close>

type_synonym cache = "string \<times> string list \<rightharpoonup> real"

definition entropy_for_guess ::
    "float_ops \<Rightarrow> cache \<Rightarrow> string \<Rightarrow> string list \<Rightarrow> (error + real) \<times> cache" where
  "entropy_for_guess fl entropy_cache guess possible_answers =
     (let key = (guess, possible_answers) in
      case entropy_cache key of
        Some v \<Rightarrow> (Inr v, entropy_cache)
      | None \<Rightarrow>
          (case compute_entropy fl guess possible_answers of
             Inl e \<Rightarrow> (Inl e, entropy_cache)
           | Inr entropy \<Rightarrow> (Inr entropy, entropy_cache(key \<mapsto> entropy))))"

text \<open>
  A session: calls of \<open>entropy_for_guess\<close> and of \<open>entropy_cache.clear()\<close> (the GUI's
  reset) in any order, each call working on the cache the earlier ones left. It returns
  the results of the entropy calls.
\<close>

datatype call = Entropy string "string list" | Clear

fun run_session :: "float_ops \<Rightarrow> cache \<Rightarrow> call list \<Rightarrow> (error + real) list" where
  "run_session fl entropy_cache [] = []"
| "run_session fl entropy_cache (Clear # cs) = run_session fl Map.empty cs"
| "run_session fl entropy_cache (Entropy guess possible_answers # cs) =
     (case entropy_for_guess fl entropy_cache guess possible_answers of
        (r, cache') \<Rightarrow> r # run_session fl cache' cs)"

text \<open>The same calls answered by the computation alone, with no cache.\<close>

fun uncached_session :: "float_ops \<Rightarrow> call list \<Rightarrow> (error + real) list" where
  "uncached_session fl [] = []"
| "uncached_session fl (Clear # cs) = uncached_session fl cs"
| "uncached_session fl (Entropy guess possible_answers # cs) =
     compute_entropy fl guess possible_answers # uncached_session fl cs"

text \<open>Every entry of the cache is the value the computation gives for its key.\<close>

definition cache_ok :: "float_ops \<Rightarrow> cache \<Rightarrow> bool" where
  "cache_ok fl entropy_cache \<longleftrightarrow>
     (\<forall>guess possible_answers v. entropy_cache (guess, possible_answers) = Some v \<longrightarrow>
        compute_entropy fl guess possible_answers = Inr v)"

section \<open>Choosing the guess (solver.py, \<open>best_entropy_guess\<close>)\<close>

text \<open>
  The loop over the module's \<open>allowed_words\<close>, from \<open>best_word = None\<close> and
  \<open>best_entropy = -1\<close>:
  \<open>if e > best_entropy or (e == best_entropy and guess in possible_answers)\<close> the guess
  replaces the best one.
\<close>

fun best_loop :: "float_ops \<Rightarrow> string list \<Rightarrow> string list \<Rightarrow> string option \<times> real \<Rightarrow> cache \<Rightarrow>
    (error + string option \<times> real) \<times> cache" where
  "best_loop fl possible_answers [] best entropy_cache = (Inr best, entropy_cache)"
| "best_loop fl possible_answers (guess # rest) (best_word, best_entropy) entropy_cache =
     (case entropy_for_guess fl entropy_cache guess possible_answers of
        (Inl err, cache') \<Rightarrow> (Inl err, cache')
      | (Inr e, cache') \<Rightarrow>
          best_loop fl possible_answers rest
            (if e > best_entropy \<or> (e = best_entropy \<and> guess \<in> set possible_answers)
             then (Some guess, e) else (best_word, best_entropy))
            cache')"

definition best_entropy_guess ::
    "float_ops \<Rightarrow> string list \<Rightarrow> cache \<Rightarrow> string list \<Rightarrow> (error + string option \<times> real) \<times> cache" where
  "best_entropy_guess fl allowed_words entropy_cache possible_answers =
     best_loop fl possible_answers allowed_words (None, -1) entropy_cache"


section \<open>The interactive solver (solver.py, \<open>WordleGUI\<close>)\<close>

text \<open>
  The fields of the window that \<open>submit\<close> and \<open>refresh\<close> read and write: the candidate
  list \<open>self.words\<close>, the flag \<open>self.auto\<close>, the text of the entry box, the states of the
  five tiles (0, 1 or 2, set by clicking), the suggestion shown, and the module's entropy
  cache. The label with the number of remaining words is the length of \<open>words\<close>.
\<close>

record gui =
  words :: "string list"
  auto_solve :: bool
  entry :: string
  tiles :: "nat list"
  suggestion :: "string option \<times> real"
  entropy_cache :: cache

text \<open>
  What one call of \<open>submit\<close> ends in: the error box "Invalid guess", the information box
  "Solved", the error box "No words left", a refreshed window (with whether \<open>autoplay\<close>
  was scheduled), or an exception.
\<close>

datatype outcome = ErrorInvalidGuess | InfoSolved | ErrorNoWordsLeft | Refreshed bool | Raised error

text \<open>\<open>str.lower()\<close> on the letters A to Z; the other one-byte characters are kept.\<close>

definition lower_char :: "char \<Rightarrow> char" where
  "lower_char c = (let n = (of_char c :: nat) in if 65 \<le> n \<and> n \<le> 90 then char_of (n + 32) else c)"

definition lower :: "string \<Rightarrow> string" where
  "lower s = map lower_char s"

definition refresh :: "float_ops \<Rightarrow> string list \<Rightarrow> gui \<Rightarrow> (error + unit) \<times> gui" where
  "refresh fl allowed_words st =
     (case best_entropy_guess fl allowed_words (entropy_cache st) (words st) of
        (Inl e, cache') \<Rightarrow> (Inl e, st\<lparr>entropy_cache := cache'\<rparr>)
      | (Inr (word, ent), cache') \<Rightarrow>
          (Inr (), st\<lparr>entropy_cache := cache', suggestion := (word, ent),
                      entry := [], tiles := replicate 5 0\<rparr>))"

definition submit :: "float_ops \<Rightarrow> string list \<Rightarrow> gui \<Rightarrow> outcome \<times> gui" where
  "submit fl allowed_words st =
     (let guess = lower (entry st) in
      if length guess \<noteq> 5 \<or> guess \<notin> set allowed_words then (ErrorInvalidGuess, st)
      else
        let feedback = tiles st in
        if feedback = [2, 2, 2, 2, 2] then (InfoSolved, st\<lparr>auto_solve := False\<rparr>)
        else
          (case filter_words (words st) guess feedback of
             Inl e \<Rightarrow> (Raised e, st)
           | Inr ws \<Rightarrow>
               if ws = [] then (ErrorNoWordsLeft, st\<lparr>words := ws, auto_solve := False\<rparr>)
               else
                 (case refresh fl allowed_words (st\<lparr>words := ws\<rparr>) of
                    (Inl e, st') \<Rightarrow> (Raised e, st')
                  | (Inr u, st') \<Rightarrow> (Refreshed (auto_solve st'), st'))))"

section \<open>The simulator (simulate\_wordle.py)\<close>

subsection \<open>Feedback codes and the feedback table\<close>

text \<open>
  \<open>for i, f in enumerate(fb): n += f * (3**(4-i))\<close>. A feedback has five marks, so the
  exponent is never negative.
\<close>

definition feedback_to_int :: "feedback \<Rightarrow> nat" where
  "feedback_to_int fb = fold (\<lambda>(i, f) n. n + f * 3 ^ (4 - i)) (enumerate 0 fb) 0"

text \<open>
  The table is a numpy array of \<open>uint8\<close>: a cell is an 8-bit word. It is filled with
  \<open>feedback_to_int(get_feedback(g, a))\<close> for every pair of words of the list, row by row;
  an exception of \<open>get_feedback\<close> ends the module.
\<close>

type_synonym u8 = "8 word"

fun table_row :: "string \<Rightarrow> string list \<Rightarrow> error + u8 list" where
  "table_row g [] = Inr []"
| "table_row g (a # as) =
     (case get_feedback g a of
        Inl e \<Rightarrow> Inl e
      | Inr fb \<Rightarrow>
          (case table_row g as of
             Inl e \<Rightarrow> Inl e
           | Inr r \<Rightarrow> Inr (of_nat (feedback_to_int fb) # r)))"

fun table_rows :: "string list \<Rightarrow> string list \<Rightarrow> error + u8 list list" where
  "table_rows [] possible_words = Inr []"
| "table_rows (g # gs) possible_words =
     (case table_row g possible_words of
        Inl e \<Rightarrow> Inl e
      | Inr r \<Rightarrow>
          (case table_rows gs possible_words of
             Inl e \<Rightarrow> Inl e
           | Inr rs \<Rightarrow> Inr (r # rs)))"

definition feedback_table :: "string list \<Rightarrow> error + u8 list list" where
  "feedback_table possible_words = table_rows possible_words possible_words"

text \<open>\<open>feedback_table[gi, idx]\<close> for an array of column indices; out of range raises.\<close>

definition row_at :: "u8 list list \<Rightarrow> nat \<Rightarrow> nat list \<Rightarrow> error + u8 list" where
  "row_at table gi idx =
     (if gi < length table \<and> (\<forall>r\<in>set idx. r < length (table ! gi))
      then Inr (map (\<lambda>r. table ! gi ! r) idx) else Inl IndexError)"

text \<open>\<open>[(fb // 3**(4-i)) % 3 for i in range(5)]\<close> on a cell of the table.\<close>

definition fb_list :: "u8 \<Rightarrow> feedback" where
  "fb_list fb = map (\<lambda>i. unat ((fb div 3 ^ (4 - i)) mod 3)) [0..<5]"

subsection \<open>Choosing the guess\<close>

text \<open>
  \<open>np.bincount(xs, minlength=m)\<close>: how often each value from 0 occurs, up to the largest
  value of \<open>xs\<close> and at least \<open>m\<close> entries.
\<close>

definition bincount :: "u8 list \<Rightarrow> nat \<Rightarrow> nat list" where
  "bincount xs minlength =
     map (\<lambda>v. count_list (map unat xs) v)
       [0..<(if xs = [] then minlength else max minlength (fold max (map unat xs) 0 + 1))]"

definition N_feedback :: nat where
  "N_feedback = 3 ^ 5"

text \<open>
  The entropy the simulator computes for the guess \<open>gi\<close>:
  \<open>counts = np.bincount(feedback_table[gi, remaining_idx], minlength=N_feedback)\<close>,
  \<open>probs = counts[counts>0]/len(remaining_idx)\<close>, \<open>e = np.sum(probs*np.log2(1/probs))\<close>.
\<close>

definition entropy_of_row :: "float_ops \<Rightarrow> u8 list list \<Rightarrow> nat list \<Rightarrow> nat \<Rightarrow> error + real" where
  "entropy_of_row fl table remaining_idx gi =
     (case row_at table gi remaining_idx of
        Inl err \<Rightarrow> Inl err
      | Inr codes \<Rightarrow>
          (let counts = bincount codes N_feedback;
               probs = map (\<lambda>c. fl_div fl (real c) (real (length remaining_idx)))
                         (filter (\<lambda>c. 0 < c) counts)
           in Inr (fl_sum fl (map (\<lambda>p. fl_mul fl p (fl_log2 fl (fl_div fl 1 p))) probs))))"

text \<open>
  The loop of the simulator's \<open>best_entropy_guess\<close> over \<open>remaining_idx\<close>, from
  \<open>best_g = None\<close> and \<open>best_e = -1\<close>; only \<open>e > best_e\<close> replaces the best guess.
\<close>

fun best_loop_sim :: "float_ops \<Rightarrow> u8 list list \<Rightarrow> nat list \<Rightarrow> nat list \<Rightarrow> nat option \<times> real \<Rightarrow>
    error + nat option \<times> real" where
  "best_loop_sim fl table remaining_idx [] best = Inr best"
| "best_loop_sim fl table remaining_idx (gi # rest) (best_g, best_e) =
     (case entropy_of_row fl table remaining_idx gi of
        Inl err \<Rightarrow> Inl err
      | Inr e \<Rightarrow>
          best_loop_sim fl table remaining_idx rest
            (if e > best_e then (Some gi, e) else (best_g, best_e)))"

definition best_entropy_guess_sim :: "float_ops \<Rightarrow> u8 list list \<Rightarrow> nat list \<Rightarrow> error + nat option" where
  "best_entropy_guess_sim fl table remaining_idx =
     (case best_loop_sim fl table remaining_idx remaining_idx (None, -1) of
        Inl err \<Rightarrow> Inl err
      | Inr (best_g, best_e) \<Rightarrow> Inr best_g)"

subsection \<open>One game\<close>

definition MAX_GUESSES :: nat where
  "MAX_GUESSES = 6"

text \<open>\<open>feedback_table[gi, ai]\<close> for two indices.\<close>

definition cell_at :: "u8 list list \<Rightarrow> nat \<Rightarrow> nat \<Rightarrow> error + u8" where
  "cell_at table gi ai =
     (if gi < length table \<and> ai < length (table ! gi) then Inr (table ! gi ! ai)
      else Inl IndexError)"

text \<open>\<open>remaining[feedback_table[gi, remaining] == fb]\<close>: a new array.\<close>

definition filter_remaining :: "u8 list list \<Rightarrow> nat \<Rightarrow> nat list \<Rightarrow> u8 \<Rightarrow> error + nat list" where
  "filter_remaining table gi remaining fb =
     (case row_at table gi remaining of
        Inl e \<Rightarrow> Inl e
      | Inr codes \<Rightarrow> Inr (map fst (filter (\<lambda>(r, c). c = fb) (zip remaining codes))))"

text \<open>
  The same call on the array objects: indexing with a boolean mask gives a new array, and
  the array indexed is only read.
\<close>

definition filter_remaining_ref ::
    "nat store \<Rightarrow> u8 list list \<Rightarrow> nat \<Rightarrow> nat \<Rightarrow> u8 \<Rightarrow> (error + nat) \<times> nat store" where
  "filter_remaining_ref h table gi remaining_ref fb =
     (case filter_remaining table gi (cells h remaining_ref) fb of
        Inl e \<Rightarrow> (Inl e, h)
      | Inr r \<Rightarrow> (case new_object h r of (ref, h') \<Rightarrow> (Inr ref, h')))"

text \<open>
  The \<open>while True\<close> loop for the answer with index \<open>ai\<close>. The state is the number of
  guesses made, the remaining indices, and the feedbacks and words recorded so far. With
  \<open>gi = None\<close> the code fails at \<open>possible_words[gi]\<close> with a TypeError.
\<close>

function game_loop :: "float_ops \<Rightarrow> string list \<Rightarrow> u8 list list \<Rightarrow> nat \<Rightarrow> nat \<Rightarrow>
    nat \<Rightarrow> nat list \<Rightarrow> feedback list \<Rightarrow> string list \<Rightarrow> error + nat \<times> feedback list \<times> string list" where
  "game_loop fl possible_words table fixed_first_guess_idx ai guesses remaining game_feedbacks game_words =
     (case (if Suc guesses = 1 then Inr (Some fixed_first_guess_idx)
            else best_entropy_guess_sim fl table remaining) of
        Inl e \<Rightarrow> Inl e
      | Inr None \<Rightarrow> Inl TypeError
      | Inr (Some gi) \<Rightarrow>
          (case cell_at table gi ai of
             Inl e \<Rightarrow> Inl e
           | Inr fb \<Rightarrow>
               if length possible_words \<le> gi then Inl IndexError
               else if gi = ai \<or> MAX_GUESSES \<le> Suc guesses
               then Inr (Suc guesses, game_feedbacks @ [fb_list fb],
                         game_words @ [possible_words ! gi])
               else
                 (case filter_remaining table gi remaining fb of
                    Inl e \<Rightarrow> Inl e
                  | Inr remaining' \<Rightarrow>
                      game_loop fl possible_words table fixed_first_guess_idx ai (Suc guesses)
                        remaining'
                        (game_feedbacks @ [fb_list fb])
                        (game_words @ [possible_words ! gi]))))"
  by pat_completeness auto
termination
  by (relation "measure (\<lambda>(fl, pw, table, fixed, ai, guesses, rest). MAX_GUESSES - guesses)")
     (auto simp: MAX_GUESSES_def)

declare game_loop.simps [simp del]

text \<open>
  One game of the module: the table is built, the first guess is
  \<open>possible_words.index("raise")\<close>, and the game starts from all indices.
\<close>

definition simulate_game :: "float_ops \<Rightarrow> string list \<Rightarrow> nat \<Rightarrow> error + nat \<times> feedback list \<times> string list" where
  "simulate_game fl possible_words ai =
     (case feedback_table possible_words of
        Inl e \<Rightarrow> Inl e
      | Inr table \<Rightarrow>
          (case list_index possible_words ''raise'' of
             None \<Rightarrow> Inl ValueError
           | Some fixed_first_guess_idx \<Rightarrow>
               game_loop fl possible_words table fixed_first_guess_idx ai 0
                 [0..<length possible_words] [] []))"


section \<open>Auxiliary definitions\<close>

text \<open>
  One round of the solver's selection loop and one of the simulator's, for a given score
  of every guess; the cell the table holds for two words, and the table of a word list.
  They are used in the proofs only.
\<close>

definition pick :: "(string \<Rightarrow> real) \<Rightarrow> string list \<Rightarrow> string \<Rightarrow> string option \<times> real \<Rightarrow>
    string option \<times> real" where
  "pick sc possible_answers guess best =
     (if sc guess > snd best \<or> (sc guess = snd best \<and> guess \<in> set possible_answers)
      then (Some guess, sc guess) else best)"

definition pick_sim :: "(nat \<Rightarrow> real) \<Rightarrow> nat \<Rightarrow> nat option \<times> real \<Rightarrow> nat option \<times> real" where
  "pick_sim sc gi best = (if sc gi > snd best then (Some gi, sc gi) else best)"

definition cell_code :: "string \<Rightarrow> string \<Rightarrow> u8" where
  "cell_code g a = of_nat (feedback_to_int (fst (feedback_run g a)))"

definition table_of :: "string list \<Rightarrow> u8 list list" where
  "table_of possible_words = map (\<lambda>g. map (cell_code g) possible_words) possible_words"

section \<open>Properties of the feedback\<close>

subsection \<open>The loops as folds\<close>

lemma list_index_Some:
  "x \<in> set xs \<Longrightarrow> \<exists>k. list_index xs x = Some k \<and> k < length xs \<and> xs ! k = x"
  by (induction xs) auto

lemma count_list_update:
  "k < length xs \<Longrightarrow>
   count_list (xs[k := y]) c + (if xs ! k = c then 1 else 0) = count_list xs c + (if y = c then 1 else 0)"
proof (induction xs arbitrary: k)
  case Nil
  then show ?case by simp
next
  case (Cons x xs)
  show ?case
  proof (cases k)
    case 0
    then show ?thesis by simp
  next
    case (Suc j)
    with Cons.prems have "j < length xs" by simp
    from Cons.IH [OF this] Suc show ?thesis by (simp split: if_splits)
  qed
qed

lemma count_list_index: "count_list xs c = length (filter (\<lambda>k. xs ! k = c) [0..<length xs])"
proof -
  have "count_list xs c = length (filter ((=) c) (map ((!) xs) [0..<length xs]))"
    by (simp add: map_nth count_list_eq_length_filter)
  also have "\<dots> = length (filter (\<lambda>k. c = xs ! k) [0..<length xs])"
    by (simp add: filter_map comp_def)
  also have "\<dots> = length (filter (\<lambda>k. xs ! k = c) [0..<length xs])"
    by (rule arg_cong [where f = length], rule filter_cong) auto
  finally show ?thesis .
qed

lemma for_each_pass1:
  "for_each is (pass1_body g a) s =
     (if \<forall>i\<in>set is. i < length g \<and> i < length a then Inr (fold (pass1_step g a) is s)
      else Inl IndexError)"
proof (induction "is" arbitrary: s)
  case Nil
  then show ?case by simp
next
  case (Cons i "is")
  obtain fb al where s: "s = (fb, al)" by (cases s)
  show ?case unfolding s by (simp add: Cons.IH not_le)
qed

lemma pass2_body_step:
  "i < length g \<Longrightarrow> pass2_body g i s = Inr (pass2_step g i s)"
proof -
  assume i: "i < length g"
  obtain fb al where s: "s = (fb, al)" by (cases s)
  show ?thesis
  proof (cases "fb ! i = 0 \<and> Some (g ! i) \<in> set al")
    case True
    then obtain k where "list_index al (Some (g ! i)) = Some k"
      using list_index_Some by fastforce
    with True i show ?thesis by (simp add: s)
  next
    case False
    with i show ?thesis by (auto simp: s)
  qed
qed

lemma for_each_pass2:
  "\<forall>i\<in>set is. i < length g \<Longrightarrow> for_each is (pass2_body g) s = Inr (fold (pass2_step g) is s)"
  by (induction "is" arbitrary: s) (simp_all add: pass2_body_step)

lemma get_feedback_ok:
  assumes "5 \<le> length g" "5 \<le> length a"
  shows "get_feedback g a = Inr (fst (feedback_run g a))"
proof -
  have 1: "\<forall>i\<in>set [0..<5]. i < length g \<and> i < length a" using assms by auto
  have 2: "\<forall>i\<in>set [0..<5]. i < length g" using assms by auto
  have p1: "for_each [0..<5] (pass1_body g a) (replicate 5 0, map Some a)
      = Inr (fold (pass1_step g a) [0..<5] (replicate 5 0, map Some a))"
    by (rule trans [OF for_each_pass1 if_P [OF 1]])
  show ?thesis
    unfolding get_feedback_def feedback_run_def p1
    by (simp only: sum.case for_each_pass2 [OF 2] split_beta)
qed

lemma get_feedback_short:
  assumes "length g < 5 \<or> length a < 5"
  shows "get_feedback g a = Inl IndexError"
proof -
  have 1: "\<not> (\<forall>i\<in>set [0..<5]. i < length g \<and> i < length a)"
  proof
    assume h: "\<forall>i\<in>set [0..<5]. i < length g \<and> i < length a"
    have "(4::nat) \<in> set [0..<5]" by simp
    with h have "4 < length g \<and> 4 < length a" by (rule bspec)
    with assms show False by auto
  qed
  have p1: "for_each [0..<5] (pass1_body g a) (replicate 5 0, map Some a) = Inl IndexError"
    by (rule trans [OF for_each_pass1 if_not_P [OF 1]])
  show ?thesis
    unfolding get_feedback_def p1 by simp
qed


lemma pass1_closed:
  "n \<le> 5 \<Longrightarrow> n \<le> length a \<Longrightarrow>
   fold (pass1_step g a) [0..<n] (replicate 5 0, map Some a) =
     (map (\<lambda>i. if i < n \<and> g ! i = a ! i then 2 else 0) [0..<5],
      map (\<lambda>k. if k < n \<and> g ! k = a ! k then None else Some (a ! k)) [0..<length a])"
proof (induction n)
  case 0
  have "map Some a = map (\<lambda>k. Some (a ! k)) [0..<length a]"
    by (rule nth_equalityI) simp_all
  moreover have "replicate 5 (0::nat) = map (\<lambda>i. 0) [0..<5]"
    by (rule nth_equalityI) simp_all
  ultimately show ?case by simp
next
  case (Suc n)
  let ?fb = "map (\<lambda>i. if i < n \<and> g ! i = a ! i then 2 else (0::nat)) [0..<5]"
  let ?al = "map (\<lambda>k. if k < n \<and> g ! k = a ! k then None else Some (a ! k)) [0..<length a]"
  from Suc have IH: "fold (pass1_step g a) [0..<n] (replicate 5 0, map Some a) = (?fb, ?al)"
    by simp
  have step: "fold (pass1_step g a) [0..<Suc n] (replicate 5 0, map Some a)
      = pass1_step g a n (?fb, ?al)"
    by (simp add: IH)
  have fb: "(if g ! n = a ! n then ?fb[n := 2] else ?fb)
      = map (\<lambda>i. if i < Suc n \<and> g ! i = a ! i then 2 else 0) [0..<5]"
    using Suc.prems
    by (cases "g ! n = a ! n") (auto intro!: nth_equalityI simp: nth_list_update less_Suc_eq)
  have al: "(if g ! n = a ! n then ?al[n := None] else ?al)
      = map (\<lambda>k. if k < Suc n \<and> g ! k = a ! k then None else Some (a ! k)) [0..<length a]"
    using Suc.prems
    by (cases "g ! n = a ! n") (auto intro!: nth_equalityI simp: nth_list_update less_Suc_eq)
  have "pass1_step g a n (?fb, ?al)
      = (if g ! n = a ! n then ?fb[n := 2] else ?fb, if g ! n = a ! n then ?al[n := None] else ?al)"
    by simp
  then show ?case by (simp only: step fb al)
qed

lemma pass2_inv_init:
  assumes "length a = 5"
  shows "pass2_inv g a 0 (fold (pass1_step g a) [0..<5] (replicate 5 0, map Some a))"
proof -
  let ?al = "map (\<lambda>k. if k < 5 \<and> g ! k = a ! k then None else Some (a ! k)) [0..<5]"
  have cnt: "count_list ?al (Some c) = length (filter (\<lambda>k. a ! k = c \<and> g ! k \<noteq> a ! k) [0..<5])" for c
  proof -
    have "count_list ?al (Some c) = length (filter (\<lambda>k. ?al ! k = Some c) [0..<5])"
      by (subst count_list_index) simp
    also have "\<dots> = length (filter (\<lambda>k. a ! k = c \<and> g ! k \<noteq> a ! k) [0..<5])"
      by (rule arg_cong [where f = length], rule filter_cong) auto
    finally show ?thesis .
  qed
  show ?thesis
    unfolding pass2_inv_def
    by (subst pass1_closed) (use assms cnt in \<open>simp_all\<close>)
qed

lemma pass2_inv_step:
  assumes inv: "pass2_inv g a n s" and n: "n < 5"
  shows "pass2_inv g a (Suc n) (pass2_step g n s)"
proof -
  obtain fb al where s: "s = (fb, al)" by (cases s)
  from inv have len: "length fb = 5" "length al = length a"
    and two: "\<forall>i<5. fb ! i = 2 \<longleftrightarrow> g ! i = a ! i"
    and le2: "\<forall>i<5. fb ! i \<le> 2"
    and later: "\<forall>i<5. n \<le> i \<longrightarrow> fb ! i \<noteq> 1"
    and cnt: "\<And>c. count_list al (Some c) + length (filter (\<lambda>i. g ! i = c \<and> fb ! i = 1) [0..<n])
           = length (filter (\<lambda>k. a ! k = c \<and> g ! k \<noteq> a ! k) [0..<5])"
    by (simp_all add: pass2_inv_def s)
  show ?thesis
  proof (cases "fb ! n = 0 \<and> Some (g ! n) \<in> set al")
    case True
    then obtain k where k: "list_index al (Some (g ! n)) = Some k" "k < length al"
        "al ! k = Some (g ! n)"
      using list_index_Some by fastforce
    have step: "pass2_step g n s = (fb[n := 1], al[k := None])"
      using True k by (simp add: s)
    have same: "filter (\<lambda>i. g ! i = c \<and> fb[n := Suc 0] ! i = Suc 0) [0..<n]
        = filter (\<lambda>i. g ! i = c \<and> fb ! i = Suc 0) [0..<n]" for c
      by (rule filter_cong) auto
    have upd: "count_list (al[k := None]) (Some c) + (if g ! n = c then 1 else 0)
        = count_list al (Some c)" for c
      using count_list_update [OF k(2), of None "Some c"] k(3) by (simp split: if_splits)
    have c': "count_list (al[k := None]) (Some c)
          + length (filter (\<lambda>i. g ! i = c \<and> fb[n := 1] ! i = 1) [0..<Suc n])
        = length (filter (\<lambda>k. a ! k = c \<and> g ! k \<noteq> a ! k) [0..<5])" for c
      using upd [of c] cnt [of c] n len by (simp add: same split: if_splits)
    have t: "\<forall>i<5. fb[n := 1] ! i = 2 \<longleftrightarrow> g ! i = a ! i"
      using two True n len by (auto simp: nth_list_update)
    have l: "\<forall>i<5. fb[n := 1] ! i \<le> 2"
      using le2 len n by (auto simp: nth_list_update)
    have r: "\<forall>i<5. Suc n \<le> i \<longrightarrow> fb[n := 1] ! i \<noteq> 1"
      using later len n by (auto simp: nth_list_update)
    show ?thesis
      unfolding step pass2_inv_def using len t l r c' by simp
  next
    case False
    then have step: "pass2_step g n s = (fb, al)"
      by (auto simp: s)
    from later n have "fb ! n \<noteq> 1" by simp
    then have c': "count_list al (Some c)
          + length (filter (\<lambda>i. g ! i = c \<and> fb ! i = 1) [0..<Suc n])
        = length (filter (\<lambda>k. a ! k = c \<and> g ! k \<noteq> a ! k) [0..<5])" for c
      using cnt [of c] by simp
    have r: "\<forall>i<5. Suc n \<le> i \<longrightarrow> fb ! i \<noteq> 1"
      using later by auto
    show ?thesis
      unfolding step pass2_inv_def using len two le2 r c' by simp
  qed
qed

lemma pass2_inv_fold:
  assumes "length a = 5" "n \<le> 5"
  shows "pass2_inv g a n
     (fold (pass2_step g) [0..<n] (fold (pass1_step g a) [0..<5] (replicate 5 0, map Some a)))"
  using assms(2)
proof (induction n)
  case 0
  show ?case using pass2_inv_init [OF assms(1)] by simp
next
  case (Suc n)
  then have "pass2_inv g a n
     (fold (pass2_step g) [0..<n] (fold (pass1_step g a) [0..<5] (replicate 5 0, map Some a)))"
    and "n < 5" by simp_all
  from pass2_inv_step [OF this] show ?case by simp
qed

lemma feedback_run_inv: "length a = 5 \<Longrightarrow> pass2_inv g a 5 (feedback_run g a)"
  unfolding feedback_run_def by (rule pass2_inv_fold) simp_all


lemma all_correct_nth: "length fb = 5 \<Longrightarrow> fb = [2, 2, 2, 2, 2] \<longleftrightarrow> (\<forall>i<5. fb ! i = (2::nat))"
proof -
  assume len: "length fb = 5"
  have r: "[2, 2, 2, 2, 2::nat] = replicate 5 2"
    by (simp add: numeral_eq_Suc)
  show ?thesis unfolding r using len by (auto simp: list_eq_iff_nth_eq)
qed

lemma get_feedback_spec:
  assumes "length g = 5" "length a = 5"
  shows "\<exists>fb. get_feedback g a = Inr fb \<and> length fb = 5 \<and>
           (\<forall>i<5. fb ! i = 2 \<longleftrightarrow> g ! i = a ! i) \<and> (\<forall>i<5. fb ! i \<le> 2) \<and>
           (\<forall>c. marks g fb c 1 \<le> length (filter (\<lambda>k. a ! k = c \<and> g ! k \<noteq> a ! k) [0..<5]))"
proof -
  obtain fb al where run: "feedback_run g a = (fb, al)" by (cases "feedback_run g a")
  from feedback_run_inv [OF assms(2), of g] have inv: "pass2_inv g a 5 (fb, al)"
    by (simp add: run)
  have gf: "get_feedback g a = Inr fb"
    using get_feedback_ok [of g a] assms by (simp add: run)
  from inv have "\<And>c. count_list al (Some c) + marks g fb c 1
      = length (filter (\<lambda>k. a ! k = c \<and> g ! k \<noteq> a ! k) [0..<5])"
    by (simp add: pass2_inv_def marks_def)
  then have "\<And>c. marks g fb c 1 \<le> length (filter (\<lambda>k. a ! k = c \<and> g ! k \<noteq> a ! k) [0..<5])"
    by (metis le_add2)
  with inv gf show ?thesis by (simp add: pass2_inv_def)
qed

lemma all_correct_iff_eq:
  assumes x: "length x = 5" and y: "length y = 5"
  shows "get_feedback x y = Inr [2, 2, 2, 2, 2] \<longleftrightarrow> x = y"
proof -
  from get_feedback_spec [OF x y] obtain fb where
    gf: "get_feedback x y = Inr fb" and len: "length fb = 5"
    and two: "\<forall>i<5. fb ! i = 2 \<longleftrightarrow> x ! i = y ! i"
    by blast
  have "fb = [2, 2, 2, 2, 2] \<longleftrightarrow> (\<forall>i<5. x ! i = y ! i)"
    using all_correct_nth [OF len] two by simp
  also have "\<dots> \<longleftrightarrow> x = y"
    using x y by (auto simp: list_eq_iff_nth_eq)
  finally show ?thesis by (simp add: gf)
qed

lemma count_split:
  "length (filter (\<lambda>k. P k \<and> Q k) xs) + length (filter (\<lambda>k. P k \<and> \<not> Q k) xs)
     = length (filter P xs)"
  by (induction xs) auto

subsection \<open>The two-pass rule\<close>

text \<open>
  Claim C1. For two words of five letters \<open>get_feedback\<close> returns five marks, each 0, 1
  or 2. A position is marked 2 (correct) exactly where guess and answer agree, whatever
  the other positions are. For every letter \<open>c\<close>, the positions of the guess holding
  \<open>c\<close> and marked 1 (present) are at most the occurrences of \<open>c\<close> in the answer that
  the correct positions have left over; so the positions marked 1 or 2 are together at
  most the occurrences of \<open>c\<close> in the answer.
\<close>

theorem get_feedback_multiset_rule:
  assumes "length guess = 5" and "length answer = 5"
  shows "\<exists>fb. get_feedback guess answer = Inr fb \<and> length fb = 5 \<and>
           (\<forall>i<5. fb ! i \<le> 2) \<and>
           (\<forall>i<5. fb ! i = 2 \<longleftrightarrow> guess ! i = answer ! i) \<and>
           (\<forall>c. marks guess fb c 1 \<le> count_list answer c - marks guess fb c 2) \<and>
           (\<forall>c. marks guess fb c 1 + marks guess fb c 2 \<le> count_list answer c)"
proof -
  from get_feedback_spec [OF assms] obtain fb where
    gf: "get_feedback guess answer = Inr fb" and len: "length fb = 5"
    and two: "\<forall>i<5. fb ! i = 2 \<longleftrightarrow> guess ! i = answer ! i"
    and le2: "\<forall>i<5. fb ! i \<le> 2"
    and pres: "\<And>c. marks guess fb c 1
        \<le> length (filter (\<lambda>k. answer ! k = c \<and> guess ! k \<noteq> answer ! k) [0..<5])"
    by blast
  have corr: "marks guess fb c 2
      = length (filter (\<lambda>k. answer ! k = c \<and> guess ! k = answer ! k) [0..<5])" for c
    unfolding marks_def
    by (rule arg_cong [where f = length], rule filter_cong) (use two in auto)
  have total: "count_list answer c
      = length (filter (\<lambda>k. answer ! k = c \<and> guess ! k = answer ! k) [0..<5])
        + length (filter (\<lambda>k. answer ! k = c \<and> guess ! k \<noteq> answer ! k) [0..<5])" for c
    using count_split [of "\<lambda>k. answer ! k = c" "\<lambda>k. guess ! k = answer ! k" "[0..<5]"]
    by (simp add: count_list_index assms(2))
  have sum: "marks guess fb c 1 + marks guess fb c 2 \<le> count_list answer c" for c
    using pres [of c] by (simp add: corr total)
  then have "marks guess fb c 1 \<le> count_list answer c - marks guess fb c 2" for c
    using sum [of c] by linarith
  with gf len two le2 sum show ?thesis by blast
qed

theorem get_feedback_multiset_rule_witness:
  "length ''aabbb'' = 5 \<and> length ''ababa'' = 5 \<and>
   get_feedback ''aabbb'' ''ababa'' = Inr [2, 1, 1, 2, 0] \<and>
   marks ''aabbb'' [2, 1, 1, 2, 0] CHR ''a'' 1 + marks ''aabbb'' [2, 1, 1, 2, 0] CHR ''a'' 2
     \<le> count_list ''ababa'' CHR ''a''"
proof -
  have gf: "get_feedback ''aabbb'' ''ababa'' = Inr [2, 1, 1, 2, 0]"
    by code_simp
  have "length ''aabbb'' = 5" and "length ''ababa'' = 5"
    by simp_all
  from get_feedback_multiset_rule [OF this] obtain fb where
    fb: "get_feedback ''aabbb'' ''ababa'' = Inr fb"
    and le: "\<forall>c. marks ''aabbb'' fb c 1 + marks ''aabbb'' fb c 2 \<le> count_list ''ababa'' c"
    by blast
  from fb gf have eq: "fb = [2, 1, 1, 2, 0]"
    by simp
  from le have "marks ''aabbb'' fb CHR ''a'' 1 + marks ''aabbb'' fb CHR ''a'' 2
      \<le> count_list ''ababa'' CHR ''a''"
    by (rule spec)
  then have "marks ''aabbb'' [2, 1, 1, 2, 0] CHR ''a'' 1
      + marks ''aabbb'' [2, 1, 1, 2, 0] CHR ''a'' 2 \<le> count_list ''ababa'' CHR ''a''"
    unfolding eq .
  moreover have "length ''aabbb'' = 5 \<and> length ''ababa'' = 5"
    by simp
  ultimately show ?thesis using gf by (intro conjI) simp_all
qed

subsection \<open>Failure of \<open>get_feedback\<close>\<close>

text \<open>
  Claim C9 says that words of different lengths, or with a character outside a to z, make
  the function fail. They do not: a guess of six letters against an answer of five, and
  a word with capitals and a hyphen, are both answered.
\<close>

theorem get_feedback_no_validation_counterexample:
  "get_feedback ''abcdef'' ''abcde'' = Inr [2, 2, 2, 2, 2] \<and>
   get_feedback ''AB-DE'' ''AB-DE'' = Inr [2, 2, 2, 2, 2]"
  by code_simp

text \<open>
  Claim C9, amended. \<open>get_feedback\<close> checks neither lengths nor the alphabet. It fails,
  with Python's IndexError, exactly when the guess or the answer has fewer than five
  characters, and returns a feedback in every other case; so it never fails on two words
  of five letters.
\<close>

theorem get_feedback_fails_iff_short:
  "(get_feedback guess answer = Inl IndexError \<longleftrightarrow> length guess < 5 \<or> length answer < 5) \<and>
   ((\<exists>fb. get_feedback guess answer = Inr fb) \<longleftrightarrow> 5 \<le> length guess \<and> 5 \<le> length answer)"
proof (cases "length guess < 5 \<or> length answer < 5")
  case True
  from get_feedback_short [OF True] True show ?thesis by auto
next
  case False
  then have "5 \<le> length guess" "5 \<le> length answer" by auto
  from get_feedback_ok [OF this] False show ?thesis by auto
qed

theorem get_feedback_fails_iff_short_witness:
  "get_feedback ''abcd'' ''abcde'' = Inl IndexError \<and>
   (\<exists>fb. get_feedback ''abcdef'' ''abcde'' = Inr fb)"
  using get_feedback_fails_iff_short [of "''abcd''" "''abcde''"]
    get_feedback_fails_iff_short [of "''abcdef''" "''abcde''"]
  by simp

section \<open>Properties of the filter\<close>

lemma filter_words_ok:
  assumes "5 \<le> length guess" and "\<forall>w\<in>set candidates. 5 \<le> length w"
  shows "filter_words candidates guess feedback
      = Inr (filter (\<lambda>w. get_feedback guess w = Inr feedback) candidates)"
  using assms(2)
proof (induction candidates)
  case Nil
  show ?case by simp
next
  case (Cons w ws)
  then have w: "5 \<le> length w" and IH: "filter_words ws guess feedback
      = Inr (filter (\<lambda>w. get_feedback guess w = Inr feedback) ws)"
    by simp_all
  from get_feedback_ok [OF assms(1) w] show ?case
    by (simp add: IH)
qed

lemma row_at_ok:
  assumes "gi < length table" and "\<forall>r\<in>set idx. r < length (table ! gi)"
  shows "row_at table gi idx = Inr (map (\<lambda>r. table ! gi ! r) idx)"
  using assms by (simp add: row_at_def)

lemma zip_filter_map:
  "map fst (filter (\<lambda>(r, c). c = fb) (zip xs (map f xs))) = filter (\<lambda>r. f r = fb) xs"
  by (induction xs) simp_all

lemma filter_remaining_ok:
  assumes "gi < length table" and "\<forall>r\<in>set remaining. r < length (table ! gi)"
  shows "filter_remaining table gi remaining fb
      = Inr (filter (\<lambda>r. table ! gi ! r = fb) remaining)"
  by (simp add: filter_remaining_def row_at_ok [OF assms] zip_filter_map)

section \<open>Properties of the feedback code\<close>

lemma upt_5: "[0..<5] = [0, 1, 2, 3, 4]"
  by (simp add: upt_rec)

lemma feedback_to_int_5:
  "feedback_to_int [a, b, c, d, e] = a * 81 + b * 27 + c * 9 + d * 3 + e"
  by (simp add: feedback_to_int_def)

lemma fb_list_digits:
  "fb_list w = [unat w div 81 mod 3, unat w div 27 mod 3, unat w div 9 mod 3,
                unat w div 3 mod 3, unat w mod 3]"
  by (simp add: fb_list_def upt_5 unat_div unat_mod)

lemma length_5_cases:
  assumes "length p = 5"
  obtains a b c d e where "p = [a, b, c, d, e]"
  using assms by (auto simp: numeral_eq_Suc length_Suc_conv)

lemma div_chain:
  fixes n :: nat
  shows "n div 9 = n div 3 div 3" and "n div 27 = n div 3 div 3 div 3"
    and "n div 81 = n div 3 div 3 div 3 div 3"
  by (simp_all add: div_mult2_eq [symmetric])

lemma digits_encode:
  fixes n :: nat
  assumes "n < 243"
  shows "(n div 81 mod 3) * 81 + (n div 27 mod 3) * 27 + (n div 9 mod 3) * 9
           + (n div 3 mod 3) * 3 + n mod 3 = n"
proof -
  define q1 where "q1 = n div 3"
  define q2 where "q2 = q1 div 3"
  define q3 where "q3 = q2 div 3"
  define q4 where "q4 = q3 div 3"
  have e0: "n = 3 * q1 + n mod 3" by (simp add: q1_def)
  have e1: "q1 = 3 * q2 + q1 mod 3" by (simp add: q2_def)
  have e2: "q2 = 3 * q3 + q2 mod 3" by (simp add: q3_def)
  have e3: "q3 = 3 * q4 + q3 mod 3" by (simp add: q4_def)
  have "q4 < 3" using assms e0 e1 e2 e3 by linarith
  then have e4: "q4 mod 3 = q4" by simp
  have "(q4 mod 3) * 81 + (q3 mod 3) * 27 + (q2 mod 3) * 9 + (q1 mod 3) * 3 + n mod 3 = n"
    using e0 e1 e2 e3 e4 by linarith
  then show ?thesis
    by (simp only: div_chain q1_def q2_def q3_def q4_def)
qed

lemma horner_step:
  fixes m e :: nat
  assumes "e \<le> 2"
  shows "(3 * m + e) div 3 = m" and "(3 * m + e) mod 3 = e"
  using assms by simp_all

lemma encode_digits:
  fixes a b c d e :: nat
  assumes "a \<le> 2" "b \<le> 2" "c \<le> 2" "d \<le> 2" "e \<le> 2"
  defines "n \<equiv> a * 81 + b * 27 + c * 9 + d * 3 + e"
  shows "n < 243" and "n div 81 mod 3 = a" and "n div 27 mod 3 = b"
    and "n div 9 mod 3 = c" and "n div 3 mod 3 = d" and "n mod 3 = e"
proof -
  have n: "n = 3 * (3 * (3 * (3 * a + b) + c) + d) + e"
    by (simp add: n_def)
  have q1: "n div 3 = 3 * (3 * (3 * a + b) + c) + d"
    unfolding n by (rule horner_step [OF assms(5)])
  have q2: "n div 9 = 3 * (3 * a + b) + c"
    unfolding div_chain q1 by (rule horner_step [OF assms(4)])
  have q3: "n div 27 = 3 * a + b"
    using q2 horner_step(1) [OF assms(3), of "3 * a + b"] by (simp only: div_chain)
  have q4: "n div 81 = a"
    using q3 horner_step(1) [OF assms(2), of a] by (simp only: div_chain)
  show "n < 243" using assms(1-5) by (simp add: n_def)
  show "n mod 3 = e" unfolding n by (rule horner_step [OF assms(5)])
  show "n div 3 mod 3 = d" unfolding q1 by (rule horner_step [OF assms(4)])
  show "n div 9 mod 3 = c" unfolding q2 by (rule horner_step [OF assms(3)])
  show "n div 27 mod 3 = b" unfolding q3 by (rule horner_step [OF assms(2)])
  show "n div 81 mod 3 = a" unfolding q4 using assms(1) by simp
qed

lemma encode_decode:
  assumes "unat code < 3 ^ 5"
  shows "feedback_to_int (fb_list code) = unat code"
proof -
  from assms have "unat code < 243" by simp
  from digits_encode [OF this] show ?thesis
    by (simp only: fb_list_digits feedback_to_int_5)
qed

lemma decode_encode:
  assumes "length p = 5" and "list_all (\<lambda>f. f \<le> 2) p"
  shows "feedback_to_int p < 3 ^ 5" and "fb_list (of_nat (feedback_to_int p)) = p"
proof -
  from assms(1) obtain a b c d e where abc: "p = [a, b, c, d, e]"
    by (auto elim: length_5_cases)
  with assms(2) have le: "a \<le> 2" "b \<le> 2" "c \<le> 2" "d \<le> 2" "e \<le> 2" by simp_all
  note enc = encode_digits [OF le]
  have "unat (of_nat (feedback_to_int p) :: u8) = feedback_to_int p mod 2 ^ LENGTH(8)"
    by (rule unat_of_nat)
  then have u: "unat (of_nat (feedback_to_int p) :: u8) = a * 81 + b * 27 + c * 9 + d * 3 + e"
    using enc(1) by (simp add: abc feedback_to_int_5)
  show "feedback_to_int p < 3 ^ 5"
    using enc(1) by (simp add: abc feedback_to_int_5)
  have "fb_list (of_nat (feedback_to_int p)) = [a, b, c, d, e]"
    by (simp only: fb_list_digits u enc)
  then show "fb_list (of_nat (feedback_to_int p)) = p"
    by (simp only: abc)
qed

text \<open>
  Claim C5. \<open>feedback_to_int\<close> reads the five marks as base-3 digits, position 0 the
  most significant, and \<open>fb_list\<close> (the decoding the game loop applies to a table cell)
  inverts it: decoding a cell below \<open>3^5\<close> and encoding the marks gives the cell's value
  back, and encoding five marks, each 0, 1 or 2, gives a code below \<open>3^5\<close> that, stored in
  a cell, decodes to the same marks.
\<close>

theorem feedback_code_roundtrip:
  "(unat code < 3 ^ 5 \<longrightarrow> feedback_to_int (fb_list code) = unat code) \<and>
   (length p = 5 \<and> list_all (\<lambda>f. f \<le> 2) p \<longrightarrow>
      feedback_to_int p < 3 ^ 5 \<and> fb_list (of_nat (feedback_to_int p)) = p) \<and>
   feedback_to_int [a, b, c, d, e] = a * 3 ^ 4 + b * 3 ^ 3 + c * 3 ^ 2 + d * 3 + e"
  using encode_decode [of code] decode_encode [of p] feedback_to_int_5 [of a b c d e]
  by simp

theorem feedback_code_roundtrip_witness:
  "feedback_to_int (fb_list 130) = 130 \<and> feedback_to_int [1, 1, 2, 1, 1] = 130 \<and>
   fb_list 130 = [1, 1, 2, 1, 1]"
proof -
  have "unat (130 :: u8) < 3 ^ 5" and "length [1, 1, 2, 1, 1 :: nat] = 5 \<and> list_all (\<lambda>f. f \<le> 2) [1, 1, 2, 1, 1 :: nat]"
    by simp_all
  with feedback_code_roundtrip [of 130 "[1, 1, 2, 1, 1]" 1 1 2 1 1]
  have 1: "feedback_to_int (fb_list 130) = unat (130 :: u8)"
    and 2: "fb_list (of_nat (feedback_to_int [1, 1, 2, 1, 1])) = [1, 1, 2, 1, 1]"
    and 3: "feedback_to_int [1, 1, 2, 1, 1] = 1 * 3 ^ 4 + 1 * 3 ^ 3 + 2 * 3 ^ 2 + 1 * 3 + 1"
    by blast+
  from 3 have 4: "feedback_to_int [1, 1, 2, 1, 1] = 130" by simp
  from 2 have "fb_list 130 = [1, 1, 2, 1, 1]" unfolding 4 by simp
  with 1 4 show ?thesis by simp
qed

section \<open>Properties of the entropy cache\<close>

lemma entropy_for_guess_cached:
  assumes "cache_ok fl c"
  shows "fst (entropy_for_guess fl c g pa) = compute_entropy fl g pa"
    and "cache_ok fl (snd (entropy_for_guess fl c g pa))"
proof -
  show "fst (entropy_for_guess fl c g pa) = compute_entropy fl g pa"
    using assms
    by (auto simp: entropy_for_guess_def cache_ok_def Let_def split: option.splits sum.splits)
  show "cache_ok fl (snd (entropy_for_guess fl c g pa))"
    using assms
    by (auto simp: entropy_for_guess_def cache_ok_def Let_def split: option.splits sum.splits)
qed

lemma cache_ok_empty: "cache_ok fl Map.empty"
  by (simp add: cache_ok_def)

lemma run_session_cache_ok:
  "cache_ok fl c \<Longrightarrow> run_session fl c calls = uncached_session fl calls"
proof (induction calls arbitrary: c)
  case Nil
  show ?case by simp
next
  case (Cons x calls)
  show ?case
  proof (cases x)
    case Clear
    with Cons.IH [OF cache_ok_empty] show ?thesis by simp
  next
    case (Entropy g pa)
    obtain r c' where e: "entropy_for_guess fl c g pa = (r, c')"
      by (cases "entropy_for_guess fl c g pa")
    from entropy_for_guess_cached [OF Cons.prems, of g pa] e
    have "r = compute_entropy fl g pa" "cache_ok fl c'" by simp_all
    with Cons.IH [of c'] show ?thesis by (simp add: Entropy e)
  qed
qed

text \<open>
  Claim C10. In a session that starts with the empty cache, every call of
  \<open>entropy_for_guess\<close> returns what the computation without a cache returns for the same
  guess and candidate list (a value or an exception), whatever calls and resets came
  before it.
\<close>

theorem entropy_cache_transparent:
  "run_session fl Map.empty calls = uncached_session fl calls"
  by (rule run_session_cache_ok [OF cache_ok_empty])

lemma gf_abcde_abcde: "get_feedback ''abcde'' ''abcde'' = Inr [2, 2, 2, 2, 2]" by code_simp
lemma gf_abcde_edcba: "get_feedback ''abcde'' ''edcba'' = Inr [1, 1, 2, 1, 1]" by code_simp
lemma gf_edcba_abcde: "get_feedback ''edcba'' ''abcde'' = Inr [1, 1, 2, 1, 1]" by code_simp
lemma gf_edcba_edcba: "get_feedback ''edcba'' ''edcba'' = Inr [2, 2, 2, 2, 2]" by code_simp

lemma compute_entropy_abcde:
  "compute_entropy exact_ops ''abcde'' [''abcde'', ''edcba''] = Inr 1"
  by (simp add: compute_entropy_def gf_abcde_abcde gf_abcde_edcba entropy_sum_def exact_ops_def)

lemma compute_entropy_edcba:
  "compute_entropy exact_ops ''edcba'' [''abcde'', ''edcba''] = Inr 1"
  by (simp add: compute_entropy_def gf_edcba_abcde gf_edcba_edcba entropy_sum_def exact_ops_def)

theorem entropy_cache_transparent_witness:
  "run_session exact_ops Map.empty
     [Entropy ''abcde'' [''abcde'', ''edcba''], Entropy ''abcde'' [''abcde'', ''edcba''], Clear,
      Entropy ''edcba'' [''abcde'', ''edcba'']] = [Inr 1, Inr 1, Inr 1]"
  using entropy_cache_transparent [of exact_ops
     "[Entropy ''abcde'' [''abcde'', ''edcba''], Entropy ''abcde'' [''abcde'', ''edcba''], Clear,
      Entropy ''edcba'' [''abcde'', ''edcba'']]"]
  by (simp add: compute_entropy_abcde compute_entropy_edcba)


section \<open>Properties of the guess selection\<close>

lemma for_each_buckets:
  assumes "5 \<le> length g" and "\<forall>a\<in>set pa. 5 \<le> length a"
  shows "for_each pa
           (\<lambda>answer buckets.
              case get_feedback g answer of Inl e \<Rightarrow> Inl e | Inr fb \<Rightarrow> Inr (bump buckets fb)) bs
         = Inr (fold (\<lambda>a bs. bump bs (fst (feedback_run g a))) pa bs)"
  using assms(2)
proof (induction pa arbitrary: bs)
  case Nil
  show ?case by simp
next
  case (Cons a pa)
  then have "5 \<le> length a" by simp
  from get_feedback_ok [OF assms(1) this] Cons show ?case by simp
qed

lemma bump_sum: "sum_list (map snd (bump bs k)) = Suc (sum_list (map snd bs))"
  by (induction bs k rule: bump.induct) simp_all

lemma bump_pos: "\<forall>c\<in>set (map snd bs). 0 < c \<Longrightarrow> \<forall>c\<in>set (map snd (bump bs k)). 0 < c"
  by (induction bs k rule: bump.induct) simp_all

lemma fold_bump_counts:
  assumes "\<forall>c\<in>set (map snd bs). 0 < c"
  shows "sum_list (map snd (fold (\<lambda>a bs. bump bs (f a)) pa bs)) = length pa + sum_list (map snd bs)
       \<and> (\<forall>c\<in>set (map snd (fold (\<lambda>a bs. bump bs (f a)) pa bs)). 0 < c)"
  using assms
proof (induction pa arbitrary: bs)
  case Nil
  then show ?case by simp
next
  case (Cons a pa)
  from Cons.IH [OF bump_pos [OF Cons.prems], of "f a"] show ?case
    by (simp add: bump_sum)
qed

lemma compute_entropy_counts:
  assumes "5 \<le> length g" and "\<forall>a\<in>set pa. 5 \<le> length a"
  shows "\<exists>counts. compute_entropy fl g pa = Inr (entropy_sum fl counts (length pa)) \<and>
           (\<forall>c\<in>set counts. 0 < c) \<and> sum_list counts = length pa"
proof -
  let ?bs = "fold (\<lambda>a bs. bump bs (fst (feedback_run g a))) pa []"
  have ce: "compute_entropy fl g pa = Inr (entropy_sum fl (map snd ?bs) (length pa))"
    unfolding compute_entropy_def for_each_buckets [OF assms] by simp
  have "sum_list (map snd ?bs) = length pa" "\<forall>c\<in>set (map snd ?bs). 0 < c"
    using fold_bump_counts [of "[]" "\<lambda>a. fst (feedback_run g a)" pa] by simp_all
  with ce show ?thesis by blast
qed

lemma entropy_fold_nonneg:
  assumes sane: "fl_sane fl" and "\<forall>c\<in>set counts. 0 < c \<and> c \<le> n" and "0 \<le> acc"
  shows "0 \<le> fold (\<lambda>count entropy.
             let p = fl_div fl (real count) (real n)
             in fl_add fl entropy (fl_mul fl p (fl_log2 fl (fl_div fl 1 p)))) counts acc"
  using assms(2,3)
proof (induction counts arbitrary: acc)
  case Nil
  then show ?case by simp
next
  case (Cons c counts)
  then have c: "0 < c" "c \<le> n" by simp_all
  let ?p = "fl_div fl (real c) (real n)"
  from sane c have p: "0 < ?p" "?p \<le> 1" by (auto simp: fl_sane_def)
  with sane have "1 \<le> fl_div fl 1 ?p" by (auto simp: fl_sane_def)
  with sane have "0 \<le> fl_log2 fl (fl_div fl 1 ?p)" by (auto simp: fl_sane_def)
  with sane p have "0 \<le> fl_mul fl ?p (fl_log2 fl (fl_div fl 1 ?p))" by (auto simp: fl_sane_def)
  with sane Cons.prems(2) have "0 \<le> fl_add fl acc (fl_mul fl ?p (fl_log2 fl (fl_div fl 1 ?p)))"
    by (auto simp: fl_sane_def)
  from Cons.IH [OF _ this] Cons.prems(1) show ?case by (simp add: Let_def)
qed

lemma compute_entropy_ok:
  assumes "5 \<le> length g" and "\<forall>a\<in>set pa. 5 \<le> length a"
  shows "\<exists>e. compute_entropy fl g pa = Inr e \<and> (fl_sane fl \<longrightarrow> 0 \<le> e)"
proof -
  let ?bs = "fold (\<lambda>a bs. bump bs (fst (feedback_run g a))) pa []"
  have ce: "compute_entropy fl g pa = Inr (entropy_sum fl (map snd ?bs) (length pa))"
    unfolding compute_entropy_def for_each_buckets [OF assms] by simp
  have cnt: "sum_list (map snd ?bs) = length pa" "\<forall>c\<in>set (map snd ?bs). 0 < c"
    using fold_bump_counts [of "[]" "\<lambda>a. fst (feedback_run g a)" pa] by simp_all
  have bounds: "\<forall>c\<in>set (map snd ?bs). 0 < c \<and> c \<le> length pa"
  proof
    fix c assume c: "c \<in> set (map snd ?bs)"
    then have "c \<le> sum_list (map snd ?bs)" by (rule member_le_sum_list) simp
    moreover from cnt(2) c have "0 < c" by (rule bspec)
    ultimately show "0 < c \<and> c \<le> length pa" using cnt(1) by simp
  qed
  have "0 \<le> entropy_sum fl (map snd ?bs) (length pa)" if "fl_sane fl"
    unfolding entropy_sum_def by (rule entropy_fold_nonneg [OF that bounds]) simp
  with ce show ?thesis by blast
qed

lemma best_loop_pure:
  assumes "cache_ok fl c" and "\<forall>g\<in>set gs. compute_entropy fl g pa = Inr (sc g)"
  shows "\<exists>c'. best_loop fl pa gs best c = (Inr (fold (pick sc pa) gs best), c') \<and> cache_ok fl c'"
  using assms
proof (induction gs arbitrary: best c)
  case Nil
  then show ?case by simp
next
  case (Cons g gs)
  obtain bw be where best: "best = (bw, be)" by (cases best)
  obtain r c1 where e: "entropy_for_guess fl c g pa = (r, c1)"
    by (cases "entropy_for_guess fl c g pa")
  from entropy_for_guess_cached [OF Cons.prems(1), of g pa] e Cons.prems(2)
  have r: "r = Inr (sc g)" and c1: "cache_ok fl c1" by simp_all
  from Cons.prems(2) have rest: "\<forall>g\<in>set gs. compute_entropy fl g pa = Inr (sc g)" by simp
  from Cons.IH [OF c1 rest, of "pick sc pa g best"] show ?case
    by (simp add: best e r pick_def)
qed

lemma fold_pick_spec:
  assumes "gs \<noteq> []" and "\<forall>g\<in>set gs. - 1 < sc g"
  shows "\<exists>w i. fold (pick sc pa) gs (None, - 1) = (Some w, sc w) \<and> i < length gs \<and> gs ! i = w \<and>
           (\<forall>j<length gs. sc (gs ! j) \<le> sc w \<and>
              (sc (gs ! j) = sc w \<and> gs ! j \<in> set pa \<longrightarrow> w \<in> set pa \<and> j \<le> i) \<and>
              (sc (gs ! j) = sc w \<and> w \<notin> set pa \<longrightarrow> i \<le> j))"
  using assms
proof (induction gs rule: rev_induct)
  case Nil
  then show ?case by simp
next
  case (snoc x xs)
  from snoc.prems have x: "- 1 < sc x" by simp
  show ?case
  proof (cases "xs = []")
    case True
    with x have "fold (pick sc pa) (xs @ [x]) (None, - 1) = (Some x, sc x)"
      by (simp add: pick_def)
    with True show ?thesis by simp
  next
    case False
    with snoc obtain w i where
      f: "fold (pick sc pa) xs (None, - 1) = (Some w, sc w)" and i: "i < length xs" "xs ! i = w"
      and all: "\<forall>j<length xs. sc (xs ! j) \<le> sc w \<and>
              (sc (xs ! j) = sc w \<and> xs ! j \<in> set pa \<longrightarrow> w \<in> set pa \<and> j \<le> i) \<and>
              (sc (xs ! j) = sc w \<and> w \<notin> set pa \<longrightarrow> i \<le> j)"
      by auto
    show ?thesis
    proof (cases "sc x > sc w \<or> (sc x = sc w \<and> x \<in> set pa)")
      case True
      then have r: "fold (pick sc pa) (xs @ [x]) (None, - 1) = (Some x, sc x)"
        by (simp add: f pick_def)
      have "\<forall>j<length (xs @ [x]). sc ((xs @ [x]) ! j) \<le> sc x \<and>
              (sc ((xs @ [x]) ! j) = sc x \<and> (xs @ [x]) ! j \<in> set pa \<longrightarrow> x \<in> set pa \<and> j \<le> length xs) \<and>
              (sc ((xs @ [x]) ! j) = sc x \<and> x \<notin> set pa \<longrightarrow> length xs \<le> j)"
      proof (intro allI impI)
        fix j assume j: "j < length (xs @ [x])"
        show "sc ((xs @ [x]) ! j) \<le> sc x \<and>
              (sc ((xs @ [x]) ! j) = sc x \<and> (xs @ [x]) ! j \<in> set pa \<longrightarrow> x \<in> set pa \<and> j \<le> length xs) \<and>
              (sc ((xs @ [x]) ! j) = sc x \<and> x \<notin> set pa \<longrightarrow> length xs \<le> j)"
        proof (cases "j < length xs")
          case True
          with all have "sc (xs ! j) \<le> sc w"
            and "sc (xs ! j) = sc w \<and> xs ! j \<in> set pa \<longrightarrow> w \<in> set pa" by auto
          with True \<open>sc x > sc w \<or> (sc x = sc w \<and> x \<in> set pa)\<close> show ?thesis
            by (auto simp: nth_append)
        next
          case False
          with j have "j = length xs" by simp
          then show ?thesis by simp
        qed
      qed
      with r show ?thesis
        by (intro exI [of _ x] exI [of _ "length xs"]) simp
    next
      case False
      then have r: "fold (pick sc pa) (xs @ [x]) (None, - 1) = (Some w, sc w)"
        by (auto simp: f pick_def)
      have "\<forall>j<length (xs @ [x]). sc ((xs @ [x]) ! j) \<le> sc w \<and>
              (sc ((xs @ [x]) ! j) = sc w \<and> (xs @ [x]) ! j \<in> set pa \<longrightarrow> w \<in> set pa \<and> j \<le> i) \<and>
              (sc ((xs @ [x]) ! j) = sc w \<and> w \<notin> set pa \<longrightarrow> i \<le> j)"
      proof (intro allI impI)
        fix j assume j: "j < length (xs @ [x])"
        show "sc ((xs @ [x]) ! j) \<le> sc w \<and>
              (sc ((xs @ [x]) ! j) = sc w \<and> (xs @ [x]) ! j \<in> set pa \<longrightarrow> w \<in> set pa \<and> j \<le> i) \<and>
              (sc ((xs @ [x]) ! j) = sc w \<and> w \<notin> set pa \<longrightarrow> i \<le> j)"
        proof (cases "j < length xs")
          case True
          with all show ?thesis by (simp add: nth_append)
        next
          case False
          with j have "j = length xs" by simp
          with \<open>\<not> (sc x > sc w \<or> (sc x = sc w \<and> x \<in> set pa))\<close> i show ?thesis
            by auto
        qed
      qed
      with r i show ?thesis
        by (intro exI [of _ w] exI [of _ i]) (simp add: nth_append)
    qed
  qed
qed


lemma exact_ops_sane: "fl_sane exact_ops"
  unfolding fl_sane_def exact_ops_def
  by (simp add: sum_list_nonneg divide_le_eq_1 le_divide_eq_1)

subsection \<open>The entropy in exact arithmetic\<close>

text \<open>
  Without rounding the loop of \<open>entropy_for_guess\<close> computes the Shannon entropy of the
  bucket sizes, \<open>\<Sum> c/n * log2 (n/c)\<close>, which lies between 0 and \<open>log2 n\<close> and is 0 for
  at most one candidate. With rounded operations only the lower bound is a consequence of
  the loop (\<open>compute_entropy_ok\<close>).
\<close>

lemma fold_add_sum_list:
  fixes f :: "'a \<Rightarrow> real"
  shows "fold (\<lambda>x acc. acc + f x) xs a = a + sum_list (map f xs)"
  by (induction xs arbitrary: a) simp_all

lemma sum_list_scaled:
  fixes n L :: real
  shows "(\<Sum>c\<leftarrow>xs. real c / n * L) = real (sum_list xs) / n * L"
  by (induction xs) (simp_all add: add_divide_distrib distrib_right)

lemma entropy_sum_exact:
  "entropy_sum exact_ops counts n
     = (\<Sum>c\<leftarrow>counts. real c / real n * log 2 (1 / (real c / real n)))"
  unfolding entropy_sum_def exact_ops_def
  by (simp add: Let_def fold_add_sum_list)

lemma exact_entropy_bounds:
  assumes pos: "\<forall>c\<in>set counts. 0 < c" and total: "sum_list counts = n" and n: "0 < n"
  shows "0 \<le> entropy_sum exact_ops counts n" and "entropy_sum exact_ops counts n \<le> log 2 (real n)"
proof -
  have le_n: "c \<le> n" if "c \<in> set counts" for c
    using member_le_sum_list [of c counts] that total by simp
  have bound: "0 \<le> real c / real n * log 2 (1 / (real c / real n)) \<and>
      real c / real n * log 2 (1 / (real c / real n)) \<le> real c / real n * log 2 (real n)"
    if c: "c \<in> set counts" for c
  proof -
    from pos c have c0: "0 < c" by blast
    from le_n [OF c] have cn: "c \<le> n" .
    have inv: "1 / (real c / real n) = real n / real c" by simp
    have ge1: "1 \<le> real n / real c" using c0 cn by simp
    have len: "real n / real c \<le> real n"
      using c0 n by (simp add: field_simps)
    have l0: "0 \<le> log 2 (real n / real c)" using ge1 by simp
    have l1: "log 2 (real n / real c) \<le> log 2 (real n)"
      using ge1 len n by (subst log_le_cancel_iff) simp_all
    have p0: "0 \<le> real c / real n" by simp
    have "0 \<le> real c / real n * log 2 (real n / real c)"
      by (rule mult_nonneg_nonneg [OF p0 l0])
    moreover have "real c / real n * log 2 (real n / real c)
        \<le> real c / real n * log 2 (real n)"
      by (rule mult_left_mono [OF l1 p0])
    ultimately show ?thesis unfolding inv by blast
  qed
  show "0 \<le> entropy_sum exact_ops counts n"
    unfolding entropy_sum_exact using bound by (intro sum_list_nonneg) auto
  have "entropy_sum exact_ops counts n \<le> (\<Sum>c\<leftarrow>counts. real c / real n * log 2 (real n))"
    unfolding entropy_sum_exact using bound by (intro sum_list_mono) auto
  also have "\<dots> = real (sum_list counts) / real n * log 2 (real n)"
    by (rule sum_list_scaled)
  also have "\<dots> = log 2 (real n)"
    using n by (simp add: total)
  finally show "entropy_sum exact_ops counts n \<le> log 2 (real n)" .
qed

lemma compute_entropy_exact_bounds:
  assumes "5 \<le> length g" and "\<forall>a\<in>set pa. 5 \<le> length a"
  shows "\<exists>e. compute_entropy exact_ops g pa = Inr e \<and> 0 \<le> e \<and>
           (pa \<noteq> [] \<longrightarrow> e \<le> log 2 (real (length pa))) \<and> (length pa \<le> 1 \<longrightarrow> e = 0)"
proof -
  from compute_entropy_counts [OF assms, of exact_ops] obtain counts where
    ce: "compute_entropy exact_ops g pa = Inr (entropy_sum exact_ops counts (length pa))"
    and pos: "\<forall>c\<in>set counts. 0 < c" and total: "sum_list counts = length pa"
    by blast
  let ?e = "entropy_sum exact_ops counts (length pa)"
  show ?thesis
  proof (cases "pa = []")
    case True
    with pos total have "counts = []" by (cases counts) auto
    with True ce show ?thesis by (simp add: entropy_sum_def)
  next
    case False
    then have n: "0 < length pa" by simp
    note b = exact_entropy_bounds [OF pos total n]
    have "?e = 0" if "length pa \<le> 1"
    proof -
      from that n have "length pa = 1" by linarith
      with b show ?thesis by simp
    qed
    with ce b False show ?thesis by simp
  qed
qed

subsection \<open>The tie-break of the solver\<close>

lemma best_entropy_guess_two:
  "fst (best_entropy_guess exact_ops [''abcde'', ''edcba''] Map.empty [''abcde'', ''edcba''])
     = Inr (Some ''edcba'', 1)"
  by (simp add: best_entropy_guess_def entropy_for_guess_def compute_entropy_abcde
      compute_entropy_edcba)

text \<open>
  Claim C2 says that among guesses tied for the highest entropy that are all candidates,
  the first one in the order of \<open>allowed_words\<close> is returned. With the allowed words and
  the candidates both \<open>abcde, edcba\<close>, each guess splits the candidates into two buckets
  of one word: both entropies are 1 (every intermediate value, 0.5, 2, 1, is a double, so
  the arithmetic is exact), both guesses are candidates, and the loop returns the second.
\<close>

theorem best_entropy_guess_first_wins_counterexample:
  "compute_entropy exact_ops ''abcde'' [''abcde'', ''edcba''] = Inr 1 \<and>
   compute_entropy exact_ops ''edcba'' [''abcde'', ''edcba''] = Inr 1 \<and>
   fst (best_entropy_guess exact_ops [''abcde'', ''edcba''] Map.empty [''abcde'', ''edcba''])
     = Inr (Some ''edcba'', 1)"
  by (simp add: compute_entropy_abcde compute_entropy_edcba best_entropy_guess_two)

section \<open>Properties of the simulator\<close>

subsection \<open>The feedback table\<close>

lemma table_row_ok:
  assumes "5 \<le> length g" and "\<forall>a\<in>set as. 5 \<le> length a"
  shows "table_row g as = Inr (map (cell_code g) as)"
  using assms(2)
proof (induction as)
  case Nil
  show ?case by simp
next
  case (Cons a as)
  then have "5 \<le> length a" by simp
  from get_feedback_ok [OF assms(1) this] Cons show ?case
    by (simp add: cell_code_def)
qed

lemma table_rows_ok:
  assumes "\<forall>g\<in>set gs. 5 \<le> length g" and "\<forall>a\<in>set pw. 5 \<le> length a"
  shows "table_rows gs pw = Inr (map (\<lambda>g. map (cell_code g) pw) gs)"
  using assms(1)
proof (induction gs)
  case Nil
  show ?case by simp
next
  case (Cons g gs)
  then have "5 \<le> length g" by simp
  from table_row_ok [OF this assms(2)] Cons show ?case by simp
qed

lemma feedback_table_ok:
  "\<forall>w\<in>set pw. 5 \<le> length w \<Longrightarrow> feedback_table pw = Inr (table_of pw)"
  unfolding feedback_table_def table_of_def by (rule table_rows_ok)

lemma table_of_shape:
  "length (table_of pw) = length pw"
  "gi < length pw \<Longrightarrow> length (table_of pw ! gi) = length pw"
  "gi < length pw \<Longrightarrow> ai < length pw \<Longrightarrow> table_of pw ! gi ! ai = cell_code (pw ! gi) (pw ! ai)"
  by (simp_all add: table_of_def)

lemma fb_list_cell_code:
  assumes "length g = 5" and "length a = 5"
  shows "get_feedback g a = Inr (fb_list (cell_code g a))"
proof -
  from get_feedback_spec [OF assms] obtain fb where
    gf: "get_feedback g a = Inr fb" and len: "length fb = 5" and le2: "\<forall>i<5. fb ! i \<le> 2"
    by blast
  from assms get_feedback_ok [of g a] gf have fb: "fb = fst (feedback_run g a)" by simp
  from len le2 have "list_all (\<lambda>f. f \<le> 2) fb"
    by (simp add: list_all_length)
  from decode_encode(2) [OF len this] show ?thesis
    by (simp add: cell_code_def gf fb [symmetric])
qed

lemma cell_all_correct_iff:
  assumes "distinct pw" and "\<forall>w\<in>set pw. length w = 5" and "gi < length pw" and "ai < length pw"
  shows "fb_list (table_of pw ! gi ! ai) = [2, 2, 2, 2, 2] \<longleftrightarrow> gi = ai"
proof -
  from assms have g: "length (pw ! gi) = 5" and a: "length (pw ! ai) = 5" by simp_all
  have "fb_list (table_of pw ! gi ! ai) = [2, 2, 2, 2, 2]
      \<longleftrightarrow> get_feedback (pw ! gi) (pw ! ai) = Inr [2, 2, 2, 2, 2]"
    using fb_list_cell_code [OF g a] assms(3,4) by (simp add: table_of_shape)
  also have "\<dots> \<longleftrightarrow> pw ! gi = pw ! ai"
    by (rule all_correct_iff_eq [OF g a])
  also have "\<dots> \<longleftrightarrow> gi = ai"
    using assms by (simp add: nth_eq_iff_index_eq)
  finally show ?thesis .
qed

text \<open>
  Claim C7. A word of five letters compared with itself gives five correct marks, and two
  words of five letters give five correct marks only when they are the same word. So for
  a list of distinct five-letter words the cell of the simulator's table for a guess index
  and an answer index decodes to five correct marks exactly when the two indices are
  equal, which is the simulator's test for a solved game.
\<close>

theorem get_feedback_all_correct_iff:
  assumes "length g = 5" and "length a = 5"
  shows "get_feedback g g = Inr [2, 2, 2, 2, 2] \<and>
         (get_feedback g a = Inr [2, 2, 2, 2, 2] \<longleftrightarrow> g = a) \<and>
         (distinct pw \<and> (\<forall>w\<in>set pw. length w = 5) \<and> gi < length pw \<and> ai < length pw \<longrightarrow>
            (\<exists>table fb. feedback_table pw = Inr table \<and> cell_at table gi ai = Inr fb \<and>
               (fb_list fb = [2, 2, 2, 2, 2] \<longleftrightarrow> gi = ai)))"
proof -
  have "\<exists>table fb. feedback_table pw = Inr table \<and> cell_at table gi ai = Inr fb \<and>
               (fb_list fb = [2, 2, 2, 2, 2] \<longleftrightarrow> gi = ai)"
    if d: "distinct pw" and w: "\<forall>w\<in>set pw. length w = 5" and gi: "gi < length pw" and ai: "ai < length pw"
  proof -
    from w have "\<forall>w\<in>set pw. 5 \<le> length w" by simp
    then have "feedback_table pw = Inr (table_of pw)" by (rule feedback_table_ok)
    moreover have "cell_at (table_of pw) gi ai = Inr (table_of pw ! gi ! ai)"
      using gi ai by (simp add: cell_at_def table_of_shape)
    moreover note cell_all_correct_iff [OF d w gi ai]
    ultimately show ?thesis by blast
  qed
  with all_correct_iff_eq [OF assms(1) assms(1)] all_correct_iff_eq [OF assms] show ?thesis
    by blast
qed

theorem get_feedback_all_correct_iff_witness:
  "get_feedback ''crane'' ''crane'' = Inr [2, 2, 2, 2, 2] \<and>
   get_feedback ''crane'' ''crate'' \<noteq> Inr [2, 2, 2, 2, 2]"
proof -
  have "length ''crane'' = 5" and "length ''crate'' = 5" by simp_all
  from get_feedback_all_correct_iff [OF this, of "[]" 0 0] show ?thesis by simp
qed

subsection \<open>The filters of the solver and the simulator\<close>

lemma cell_code_bound:
  assumes "length g = 5" and "length a = 5"
  shows "unat (cell_code g a) < 3 ^ 5"
proof -
  from get_feedback_spec [OF assms] obtain fb where
    gf: "get_feedback g a = Inr fb" and len: "length fb = 5" and le2: "\<forall>i<5. fb ! i \<le> 2"
    by blast
  from assms get_feedback_ok [of g a] gf have fb: "fb = fst (feedback_run g a)" by simp
  from len le2 have "list_all (\<lambda>f. f \<le> 2) fb"
    by (simp add: list_all_length)
  from decode_encode(1) [OF len this] have lt: "feedback_to_int fb < 243" by simp
  have "unat (of_nat (feedback_to_int fb) :: u8) = feedback_to_int fb mod 2 ^ LENGTH(8)"
    by (rule unat_of_nat)
  with lt show ?thesis by (simp add: cell_code_def fb [symmetric])
qed

lemma cell_code_eq_iff:
  assumes g: "length g = 5" and a: "length a = 5" and fb: "unat fb < 3 ^ 5"
  shows "cell_code g a = fb \<longleftrightarrow> get_feedback g a = Inr (fb_list fb)"
proof
  assume "cell_code g a = fb"
  with fb_list_cell_code [OF g a] show "get_feedback g a = Inr (fb_list fb)" by simp
next
  assume "get_feedback g a = Inr (fb_list fb)"
  with fb_list_cell_code [OF g a] have "fb_list (cell_code g a) = fb_list fb" by simp
  then have "feedback_to_int (fb_list (cell_code g a)) = feedback_to_int (fb_list fb)" by simp
  then have "unat (cell_code g a) = unat fb"
    by (simp only: encode_decode [OF cell_code_bound [OF g a]] encode_decode [OF fb])
  then show "cell_code g a = fb" by (simp add: word_unat_eq_iff)
qed

lemma filter_remaining_table:
  assumes words: "\<forall>w\<in>set pw. length w = 5" and gi: "gi < length pw"
    and rem: "\<forall>k\<in>set remaining. k < length pw" and fb: "unat fb < 3 ^ 5"
  shows "filter_remaining (table_of pw) gi remaining fb
      = Inr (filter (\<lambda>k. get_feedback (pw ! gi) (pw ! k) = Inr (fb_list fb)) remaining)"
proof -
  have "filter_remaining (table_of pw) gi remaining fb
      = Inr (filter (\<lambda>k. table_of pw ! gi ! k = fb) remaining)"
    using gi rem by (intro filter_remaining_ok) (simp_all add: table_of_shape)
  also have "filter (\<lambda>k. table_of pw ! gi ! k = fb) remaining
      = filter (\<lambda>k. get_feedback (pw ! gi) (pw ! k) = Inr (fb_list fb)) remaining"
  proof (rule filter_cong [OF refl])
    fix k assume "k \<in> set remaining"
    with rem have k: "k < length pw" by blast
    with words gi have "length (pw ! gi) = 5" "length (pw ! k) = 5" by simp_all
    from cell_code_eq_iff [OF this fb] gi k
    show "(table_of pw ! gi ! k = fb) = (get_feedback (pw ! gi) (pw ! k) = Inr (fb_list fb))"
      by (simp add: table_of_shape)
  qed
  finally show ?thesis .
qed

lemma cell_at_table:
  assumes words: "\<forall>w\<in>set pw. length w = 5" and gi: "gi < length pw" and ai: "ai < length pw"
  shows "\<exists>c. cell_at (table_of pw) gi ai = Inr c \<and> unat c < 3 ^ 5 \<and>
           get_feedback (pw ! gi) (pw ! ai) = Inr (fb_list c)"
proof -
  from words gi ai have l: "length (pw ! gi) = 5" "length (pw ! ai) = 5" by simp_all
  have "cell_at (table_of pw) gi ai = Inr (cell_code (pw ! gi) (pw ! ai))"
    using gi ai by (simp add: cell_at_def table_of_shape)
  with cell_code_bound [OF l] fb_list_cell_code [OF l] show ?thesis by blast
qed

lemma filter_words_ref_new:
  assumes "filter_words (cells h words_ref) guess feedback = Inr r" and "words_ref < fresh h"
  shows "\<exists>ref h'. filter_words_ref h words_ref guess feedback = (Inr ref, h') \<and>
           ref \<noteq> words_ref \<and> cells h' ref = r \<and>
           (\<forall>x. x \<noteq> ref \<longrightarrow> cells h' x = cells h x)"
  using assms by (simp add: filter_words_ref_def new_object_def)

lemma filter_words_ref_raise:
  assumes "filter_words (cells h words_ref) guess feedback = Inl e"
  shows "filter_words_ref h words_ref guess feedback = (Inl e, h)"
  using assms by (simp add: filter_words_ref_def)

lemma filter_remaining_ref_keeps:
  assumes "remaining_ref < fresh h"
  shows "\<exists>res h'. filter_remaining_ref h table gi remaining_ref fb = (res, h') \<and>
           cells h' remaining_ref = cells h remaining_ref \<and>
           (\<forall>ref. res = Inr ref \<longrightarrow> ref \<noteq> remaining_ref \<and>
              filter_remaining table gi (cells h remaining_ref) fb = Inr (cells h' ref))"
  using assms
  by (cases "filter_remaining table gi (cells h remaining_ref) fb")
     (auto simp: filter_remaining_ref_def new_object_def)


text \<open>
  Claim C3. For a guess and candidates of at least five letters, \<open>filter_words\<close> returns
  the candidates whose feedback against the guess is the observed one, in their order: a
  word is in the result exactly when it is a candidate with that feedback. Called on the
  reference of the caller's list, it returns the reference of a new list object and the
  caller's list is as it was. In the simulator, for a list of five-letter words, the table
  built from it and any code below \<open>3^5\<close>, the filter returns the remaining indices whose
  word has, against the guess, the feedback that the code stands for, an index is in the
  result exactly when it is a remaining one with that feedback, the codes the game loop
  reads from the table are below \<open>3^5\<close> and stand for the feedback of the guess against
  the answer, and the result is a new array while the array filtered is as it was.
\<close>

theorem filter_words_exact:
  assumes "5 \<le> length guess" and "\<forall>w\<in>set candidates. 5 \<le> length w"
  shows "(\<exists>r. filter_words candidates guess feedback = Inr r \<and>
            r = filter (\<lambda>w. get_feedback guess w = Inr feedback) candidates \<and>
            (\<forall>w. w \<in> set r \<longleftrightarrow> w \<in> set candidates \<and> get_feedback guess w = Inr feedback)) \<and>
         (cells h words_ref = candidates \<and> words_ref < fresh h \<longrightarrow>
            (\<exists>ref h'. filter_words_ref h words_ref guess feedback = (Inr ref, h') \<and>
               ref \<noteq> words_ref \<and> cells h' words_ref = candidates \<and>
               cells h' ref = filter (\<lambda>w. get_feedback guess w = Inr feedback) candidates)) \<and>
         ((\<forall>w\<in>set pw. length w = 5) \<and> gi < length pw \<and> (\<forall>k\<in>set remaining. k < length pw) \<and>
          unat fb < 3 ^ 5 \<longrightarrow>
            (\<exists>table r. feedback_table pw = Inr table \<and>
               filter_remaining table gi remaining fb = Inr r \<and>
               r = filter (\<lambda>k. get_feedback (pw ! gi) (pw ! k) = Inr (fb_list fb)) remaining \<and>
               (\<forall>k. k \<in> set r \<longleftrightarrow>
                  k \<in> set remaining \<and> get_feedback (pw ! gi) (pw ! k) = Inr (fb_list fb)) \<and>
               (\<forall>ai<length pw. \<exists>c. cell_at table gi ai = Inr c \<and> unat c < 3 ^ 5 \<and>
                  get_feedback (pw ! gi) (pw ! ai) = Inr (fb_list c)) \<and>
               (cells hn remaining_ref = remaining \<and> remaining_ref < fresh hn \<longrightarrow>
                  (\<exists>ref hn'. filter_remaining_ref hn table gi remaining_ref fb = (Inr ref, hn') \<and>
                     ref \<noteq> remaining_ref \<and> cells hn' remaining_ref = remaining \<and>
                     cells hn' ref = r))))"
proof (intro conjI impI)
  show "\<exists>r. filter_words candidates guess feedback = Inr r \<and>
            r = filter (\<lambda>w. get_feedback guess w = Inr feedback) candidates \<and>
            (\<forall>w. w \<in> set r \<longleftrightarrow> w \<in> set candidates \<and> get_feedback guess w = Inr feedback)"
    using filter_words_ok [OF assms] by simp
next
  assume c: "cells h words_ref = candidates \<and> words_ref < fresh h"
  then have "filter_words (cells h words_ref) guess feedback
      = Inr (filter (\<lambda>w. get_feedback guess w = Inr feedback) candidates)"
    using filter_words_ok [OF assms] by simp
  from filter_words_ref_new [OF this] c
  show "\<exists>ref h'. filter_words_ref h words_ref guess feedback = (Inr ref, h') \<and>
               ref \<noteq> words_ref \<and> cells h' words_ref = candidates \<and>
               cells h' ref = filter (\<lambda>w. get_feedback guess w = Inr feedback) candidates"
    by metis
next
  assume s: "(\<forall>w\<in>set pw. length w = 5) \<and> gi < length pw \<and> (\<forall>k\<in>set remaining. k < length pw) \<and>
          unat fb < 3 ^ 5"
  then have words: "\<forall>w\<in>set pw. length w = 5" and gi: "gi < length pw"
    and rem: "\<forall>k\<in>set remaining. k < length pw" and fb: "unat fb < 3 ^ 5"
    by blast+
  let ?r = "filter (\<lambda>k. get_feedback (pw ! gi) (pw ! k) = Inr (fb_list fb)) remaining"
  from words have "\<forall>w\<in>set pw. 5 \<le> length w" by simp
  then have t: "feedback_table pw = Inr (table_of pw)" by (rule feedback_table_ok)
  have f: "filter_remaining (table_of pw) gi remaining fb = Inr ?r"
    by (rule filter_remaining_table [OF words gi rem fb])
  have cellc: "\<forall>ai<length pw. \<exists>c. cell_at (table_of pw) gi ai = Inr c \<and> unat c < 3 ^ 5 \<and>
                  get_feedback (pw ! gi) (pw ! ai) = Inr (fb_list c)"
    using cell_at_table [OF words gi] by blast
  have ref: "\<exists>ref hn'. filter_remaining_ref hn (table_of pw) gi remaining_ref fb = (Inr ref, hn') \<and>
                     ref \<noteq> remaining_ref \<and> cells hn' remaining_ref = remaining \<and>
                     cells hn' ref = ?r"
    if "cells hn remaining_ref = remaining \<and> remaining_ref < fresh hn"
    using that f by (simp add: filter_remaining_ref_def new_object_def)
  show "\<exists>table r. feedback_table pw = Inr table \<and>
               filter_remaining table gi remaining fb = Inr r \<and>
               r = filter (\<lambda>k. get_feedback (pw ! gi) (pw ! k) = Inr (fb_list fb)) remaining \<and>
               (\<forall>k. k \<in> set r \<longleftrightarrow>
                  k \<in> set remaining \<and> get_feedback (pw ! gi) (pw ! k) = Inr (fb_list fb)) \<and>
               (\<forall>ai<length pw. \<exists>c. cell_at table gi ai = Inr c \<and> unat c < 3 ^ 5 \<and>
                  get_feedback (pw ! gi) (pw ! ai) = Inr (fb_list c)) \<and>
               (cells hn remaining_ref = remaining \<and> remaining_ref < fresh hn \<longrightarrow>
                  (\<exists>ref hn'. filter_remaining_ref hn table gi remaining_ref fb = (Inr ref, hn') \<and>
                     ref \<noteq> remaining_ref \<and> cells hn' remaining_ref = remaining \<and>
                     cells hn' ref = r))"
    using t f cellc ref
    by (intro exI [of _ "table_of pw"] exI [of _ ?r]) simp
qed

theorem filter_words_exact_witness:
  "5 \<le> length ''abcde'' \<and> list_all (\<lambda>w. 5 \<le> length w) [''abcde'', ''edcba'', ''aaaaa''] \<and>
   filter_words [''abcde'', ''edcba'', ''aaaaa''] ''abcde'' [1, 1, 2, 1, 1] = Inr [''edcba''] \<and>
   (\<exists>table. feedback_table [''abcde'', ''edcba'', ''aaaaa''] = Inr table \<and>
      filter_remaining table 0 [0, 1, 2] 130 = Inr [1])"
proof -
  let ?pw = "[''abcde'', ''edcba'', ''aaaaa'']"
  have h: "\<forall>w\<in>set ?pw. 5 \<le> length w" by simp
  have g: "5 \<le> length ''abcde''" by simp
  have f: "filter (\<lambda>w. get_feedback ''abcde'' w = Inr [1, 1, 2, 1, 1]) ?pw = [''edcba'']"
    by code_simp
  note inst = filter_words_exact [OF g h, of "[1, 1, 2, 1, 1]" _ _ ?pw 0 "[0, 1, 2]" 130]
  from inst [THEN conjunct1]
  have 1: "filter_words ?pw ''abcde'' [1, 1, 2, 1, 1] = Inr [''edcba'']"
    unfolding f by blast
  have pre: "(\<forall>w\<in>set ?pw. length w = 5) \<and> 0 < length ?pw \<and> (\<forall>k\<in>set [0, 1, 2]. k < length ?pw) \<and>
      unat (130 :: u8) < 3 ^ 5"
    by simp
  have f2: "filter (\<lambda>k. get_feedback (?pw ! 0) (?pw ! k) = Inr (fb_list 130)) [0, 1, 2] = [1]"
    by code_simp
  from inst [THEN conjunct2, THEN conjunct2, rule_format, OF pre]
  have 2: "\<exists>table. feedback_table ?pw = Inr table \<and> filter_remaining table 0 [0, 1, 2] 130 = Inr [1]"
    unfolding f2 by blast
  from 1 2 g show ?thesis by simp
qed

subsection \<open>The simulator's choice of a guess\<close>

lemma bincount_bounds:
  "\<forall>c\<in>set (filter (\<lambda>c. 0 < c) (bincount codes m)). 0 < c \<and> c \<le> length codes"
proof -
  have "count_list (map unat codes) v \<le> length codes" for v
    using count_le_length [of "map unat codes" v] by simp
  then show ?thesis by (auto simp: bincount_def)
qed

lemma entropy_of_row_ok:
  assumes gi: "gi < length table" "\<forall>r\<in>set remaining_idx. r < length (table ! gi)"
  shows "\<exists>e. entropy_of_row fl table remaining_idx gi = Inr e \<and> (fl_sane fl \<longrightarrow> 0 \<le> e)"
proof -
  define codes where "codes = map (\<lambda>r. table ! gi ! r) remaining_idx"
  define probs where "probs = map (\<lambda>c. fl_div fl (real c) (real (length remaining_idx)))
      (filter (\<lambda>c. 0 < c) (bincount codes N_feedback))"
  define e where "e = fl_sum fl (map (\<lambda>p. fl_mul fl p (fl_log2 fl (fl_div fl 1 p))) probs)"
  have r: "entropy_of_row fl table remaining_idx gi = Inr e"
    by (simp add: entropy_of_row_def row_at_ok [OF gi] Let_def e_def probs_def codes_def)
  have "0 \<le> e" if sane: "fl_sane fl"
  proof -
    have len: "length codes = length remaining_idx" by (simp add: codes_def)
    have p: "\<forall>p\<in>set probs. 0 < p \<and> p \<le> 1"
      using bincount_bounds [of codes N_feedback] sane
      unfolding probs_def len fl_sane_def by auto
    have "\<forall>x\<in>set (map (\<lambda>p. fl_mul fl p (fl_log2 fl (fl_div fl 1 p))) probs). 0 \<le> x"
    proof
      fix x assume "x \<in> set (map (\<lambda>p. fl_mul fl p (fl_log2 fl (fl_div fl 1 p))) probs)"
      then obtain q where q: "q \<in> set probs" and x: "x = fl_mul fl q (fl_log2 fl (fl_div fl 1 q))"
        by auto
      from p q have q01: "0 < q" "q \<le> 1" by auto
      with sane have "1 \<le> fl_div fl 1 q" by (auto simp: fl_sane_def)
      with sane have "0 \<le> fl_log2 fl (fl_div fl 1 q)" by (auto simp: fl_sane_def)
      with sane q01 show "0 \<le> x" unfolding x by (auto simp: fl_sane_def)
    qed
    with sane show ?thesis unfolding e_def by (auto simp: fl_sane_def)
  qed
  with r show ?thesis by blast
qed

lemma best_loop_sim_fold:
  assumes "\<forall>gi\<in>set gs. entropy_of_row fl table remaining_idx gi = Inr (sc gi)"
  shows "best_loop_sim fl table remaining_idx gs best = Inr (fold (pick_sim sc) gs best)"
  using assms
proof (induction gs arbitrary: best)
  case Nil
  show ?case by simp
next
  case (Cons gi gs)
  obtain bg be where best: "best = (bg, be)" by (cases best)
  from Cons show ?case by (simp add: best pick_sim_def)
qed

lemma fold_pick_sim_spec:
  assumes "gs \<noteq> []" and "\<forall>g\<in>set gs. - 1 < sc g"
  shows "\<exists>i<length gs. fold (pick_sim sc) gs (None, - 1) = (Some (gs ! i), sc (gs ! i)) \<and>
           (\<forall>j<length gs. sc (gs ! j) \<le> sc (gs ! i)) \<and> (\<forall>j<i. sc (gs ! j) < sc (gs ! i))"
  using assms
proof (induction gs rule: rev_induct)
  case Nil
  then show ?case by simp
next
  case (snoc x xs)
  from snoc.prems have x: "- 1 < sc x" by simp
  show ?case
  proof (cases "xs = []")
    case True
    with x have "fold (pick_sim sc) (xs @ [x]) (None, - 1) = (Some x, sc x)"
      by (simp add: pick_sim_def)
    with True show ?thesis by simp
  next
    case False
    with snoc obtain i where i: "i < length xs"
      and f: "fold (pick_sim sc) xs (None, - 1) = (Some (xs ! i), sc (xs ! i))"
      and le: "\<forall>j<length xs. sc (xs ! j) \<le> sc (xs ! i)"
      and lt: "\<forall>j<i. sc (xs ! j) < sc (xs ! i)"
      by auto
    show ?thesis
    proof (cases "sc x > sc (xs ! i)")
      case True
      then have r: "fold (pick_sim sc) (xs @ [x]) (None, - 1) = (Some x, sc x)"
        by (simp add: f pick_sim_def)
      have "\<forall>j<length xs. sc (xs ! j) < sc x"
        using le True by fastforce
      with r show ?thesis
        by (intro exI [of _ "length xs"]) (auto simp: nth_append less_Suc_eq)
    next
      case False
      then have r: "fold (pick_sim sc) (xs @ [x]) (None, - 1) = (Some (xs ! i), sc (xs ! i))"
        by (simp add: f pick_sim_def)
      from False have "sc x \<le> sc (xs ! i)" by simp
      with r i le lt show ?thesis
        by (intro exI [of _ i]) (auto simp: nth_append less_Suc_eq)
    qed
  qed
qed

lemma best_entropy_guess_sim_spec:
  assumes sane: "fl_sane fl" and ne: "remaining \<noteq> []"
    and rows: "\<forall>gi\<in>set remaining. gi < length table \<and> (\<forall>r\<in>set remaining. r < length (table ! gi))"
  shows "\<exists>i e. i < length remaining \<and>
           best_entropy_guess_sim fl table remaining = Inr (Some (remaining ! i)) \<and>
           entropy_of_row fl table remaining (remaining ! i) = Inr e \<and>
           (\<forall>j<length remaining. \<exists>e'.
              entropy_of_row fl table remaining (remaining ! j) = Inr e' \<and> e' \<le> e \<and>
              (j < i \<longrightarrow> e' < e))"
proof -
  define sc where "sc gi = projr (entropy_of_row fl table remaining gi)" for gi
  have sc: "entropy_of_row fl table remaining gi = Inr (sc gi) \<and> 0 \<le> sc gi"
    if "gi \<in> set remaining" for gi
  proof -
    from that rows have "gi < length table" "\<forall>r\<in>set remaining. r < length (table ! gi)"
      by auto
    from entropy_of_row_ok [OF this, of fl] sane show ?thesis by (auto simp: sc_def)
  qed
  then have all: "\<forall>gi\<in>set remaining. entropy_of_row fl table remaining gi = Inr (sc gi)"
    and pos: "\<forall>gi\<in>set remaining. - 1 < sc gi"
    by force+
  from fold_pick_sim_spec [OF ne pos] obtain i where i: "i < length remaining"
    and f: "fold (pick_sim sc) remaining (None, - 1) = (Some (remaining ! i), sc (remaining ! i))"
    and le: "\<forall>j<length remaining. sc (remaining ! j) \<le> sc (remaining ! i)"
    and lt: "\<forall>j<i. sc (remaining ! j) < sc (remaining ! i)"
    by blast
  have r: "best_entropy_guess_sim fl table remaining = Inr (Some (remaining ! i))"
    by (simp add: best_entropy_guess_sim_def best_loop_sim_fold [OF all] f)
  have "\<exists>e'. entropy_of_row fl table remaining (remaining ! j) = Inr e' \<and> e' \<le> sc (remaining ! i) \<and>
              (j < i \<longrightarrow> e' < sc (remaining ! i))" if "j < length remaining" for j
    using that all le lt by auto
  with i r sc [of "remaining ! i"] show ?thesis by auto
qed

lemma best_entropy_guess_sim_ok:
  assumes "fl_sane fl" and "remaining \<noteq> []"
    and "\<forall>gi\<in>set remaining. gi < length table \<and> (\<forall>r\<in>set remaining. r < length (table ! gi))"
  shows "\<exists>gi\<in>set remaining. best_entropy_guess_sim fl table remaining = Inr (Some gi)"
  using best_entropy_guess_sim_spec [OF assms] by (metis nth_mem)

subsection \<open>The tie-break of both selections\<close>

text \<open>
  Claim C2, amended. For words of at least five letters, a non-empty \<open>allowed_words\<close>
  and a cache that holds only computed values, the solver's \<open>best_entropy_guess\<close>
  returns a word \<open>w\<close> of \<open>allowed_words\<close> with its entropy \<open>e\<close> such that no allowed
  word has a higher entropy; if an allowed word with entropy \<open>e\<close> is a candidate, so is
  \<open>w\<close>; when \<open>w\<close> is a candidate it is the last allowed word that has entropy \<open>e\<close> and is
  a candidate, and when it is not it is the first allowed word with entropy \<open>e\<close>. Here
  \<open>i\<close> is the position of \<open>w\<close>. The simulator's \<open>best_entropy_guess\<close>, which chooses
  among the remaining candidates only, returns the first of them whose entropy no other
  exceeds.
\<close>

theorem best_entropy_guess_tie_break:
  assumes "fl_sane fl" and "cache_ok fl cache0" and "allowed_words \<noteq> []"
    and "\<forall>g\<in>set allowed_words. 5 \<le> length g"
    and "\<forall>a\<in>set possible_answers. 5 \<le> length a"
  shows "(\<exists>w e i cache'.
           best_entropy_guess fl allowed_words cache0 possible_answers
             = (Inr (Some w, e), cache') \<and>
           i < length allowed_words \<and> allowed_words ! i = w \<and>
           compute_entropy fl w possible_answers = Inr e \<and>
           (\<forall>j<length allowed_words. \<exists>e'.
              compute_entropy fl (allowed_words ! j) possible_answers = Inr e' \<and> e' \<le> e \<and>
              (e' = e \<and> allowed_words ! j \<in> set possible_answers
                 \<longrightarrow> w \<in> set possible_answers \<and> j \<le> i) \<and>
              (e' = e \<and> w \<notin> set possible_answers \<longrightarrow> i \<le> j))) \<and>
         (remaining \<noteq> [] \<and>
          (\<forall>gi\<in>set remaining. gi < length table \<and> (\<forall>r\<in>set remaining. r < length (table ! gi)))
          \<longrightarrow>
          (\<exists>i e. i < length remaining \<and>
             best_entropy_guess_sim fl table remaining = Inr (Some (remaining ! i)) \<and>
             entropy_of_row fl table remaining (remaining ! i) = Inr e \<and>
             (\<forall>j<length remaining. \<exists>e'.
                entropy_of_row fl table remaining (remaining ! j) = Inr e' \<and> e' \<le> e \<and>
                (j < i \<longrightarrow> e' < e))))"
proof (rule conjI)
  define sc where "sc g = projr (compute_entropy fl g possible_answers)" for g
  have sc: "compute_entropy fl g possible_answers = Inr (sc g) \<and> 0 \<le> sc g"
    if "g \<in> set allowed_words" for g
  proof -
    from that assms(4) have "5 \<le> length g" by simp
    from compute_entropy_ok [OF this assms(5), of fl] assms(1) show ?thesis
      by (auto simp: sc_def)
  qed
  then have all: "\<forall>g\<in>set allowed_words. compute_entropy fl g possible_answers = Inr (sc g)"
    and pos: "\<forall>g\<in>set allowed_words. - 1 < sc g"
    by force+
  from best_loop_pure [OF assms(2) all, of "(None, - 1)"] obtain cache' where
    loop: "best_entropy_guess fl allowed_words cache0 possible_answers
      = (Inr (fold (pick sc possible_answers) allowed_words (None, - 1)), cache')"
    by (auto simp: best_entropy_guess_def)
  from fold_pick_spec [OF assms(3) pos, of possible_answers] obtain w i where
    f: "fold (pick sc possible_answers) allowed_words (None, - 1) = (Some w, sc w)"
    and i: "i < length allowed_words" "allowed_words ! i = w"
    and spec: "\<forall>j<length allowed_words. sc (allowed_words ! j) \<le> sc w \<and>
              (sc (allowed_words ! j) = sc w \<and> allowed_words ! j \<in> set possible_answers
                 \<longrightarrow> w \<in> set possible_answers \<and> j \<le> i) \<and>
              (sc (allowed_words ! j) = sc w \<and> w \<notin> set possible_answers \<longrightarrow> i \<le> j)"
    by blast
  from i have w: "w \<in> set allowed_words" by auto
  have "\<exists>e'. compute_entropy fl (allowed_words ! j) possible_answers = Inr e' \<and> e' \<le> sc w \<and>
              (e' = sc w \<and> allowed_words ! j \<in> set possible_answers
                 \<longrightarrow> w \<in> set possible_answers \<and> j \<le> i) \<and>
              (e' = sc w \<and> w \<notin> set possible_answers \<longrightarrow> i \<le> j)"
    if j: "j < length allowed_words" for j
  proof -
    from j have "allowed_words ! j \<in> set allowed_words" by simp
    with all have "compute_entropy fl (allowed_words ! j) possible_answers
        = Inr (sc (allowed_words ! j))" by blast
    with spec j show ?thesis by blast
  qed
  with loop f i sc [OF w] show "\<exists>w e i cache'.
           best_entropy_guess fl allowed_words cache0 possible_answers
             = (Inr (Some w, e), cache') \<and>
           i < length allowed_words \<and> allowed_words ! i = w \<and>
           compute_entropy fl w possible_answers = Inr e \<and>
           (\<forall>j<length allowed_words. \<exists>e'.
              compute_entropy fl (allowed_words ! j) possible_answers = Inr e' \<and> e' \<le> e \<and>
              (e' = e \<and> allowed_words ! j \<in> set possible_answers
                 \<longrightarrow> w \<in> set possible_answers \<and> j \<le> i) \<and>
              (e' = e \<and> w \<notin> set possible_answers \<longrightarrow> i \<le> j))"
    by (simp only: ) blast
next
  show "remaining \<noteq> [] \<and>
          (\<forall>gi\<in>set remaining. gi < length table \<and> (\<forall>r\<in>set remaining. r < length (table ! gi)))
          \<longrightarrow>
          (\<exists>i e. i < length remaining \<and>
             best_entropy_guess_sim fl table remaining = Inr (Some (remaining ! i)) \<and>
             entropy_of_row fl table remaining (remaining ! i) = Inr e \<and>
             (\<forall>j<length remaining. \<exists>e'.
                entropy_of_row fl table remaining (remaining ! j) = Inr e' \<and> e' \<le> e \<and>
                (j < i \<longrightarrow> e' < e)))"
    using best_entropy_guess_sim_spec [OF assms(1), of remaining table] by blast
qed



theorem best_entropy_guess_tie_break_witness:
  "\<exists>e cache'. best_entropy_guess exact_ops [''abcde'', ''edcba''] Map.empty [''abcde'', ''edcba'']
     = (Inr (Some ''edcba'', e), cache')"
proof -
  have "[''abcde'', ''edcba''] \<noteq> []" and "\<forall>g\<in>set [''abcde'', ''edcba'']. 5 \<le> length g"
    by simp_all
  from best_entropy_guess_tie_break [OF exact_ops_sane cache_ok_empty this this(2), THEN conjunct1]
  obtain w e i cache' where
    r: "best_entropy_guess exact_ops [''abcde'', ''edcba''] Map.empty [''abcde'', ''edcba'']
          = (Inr (Some w, e), cache')"
    by blast
  with best_entropy_guess_two have "w = ''edcba''" by simp
  with r show ?thesis by blast
qed

subsection \<open>One game\<close>

lemma game_loop_spec:
  assumes sane: "fl_sane fl" and words5: "\<forall>w\<in>set pw. 5 \<le> length w"
    and fixed: "fixed < length pw" and ai: "ai < length pw"
    and g: "guesses < MAX_GUESSES"
    and rem: "ai \<in> set remaining" "\<forall>r\<in>set remaining. r < length pw"
    and lens: "length gfs = guesses" "length gws = guesses"
    and prev: "distinct pw \<and> (\<forall>w\<in>set pw. length w = 5)
                 \<longrightarrow> (\<forall>k<guesses. gfs ! k \<noteq> [2, 2, 2, 2, 2])"
  shows "\<exists>n fs ws.
           game_loop fl pw (table_of pw) fixed ai guesses remaining gfs gws = Inr (n, fs, ws) \<and>
           guesses < n \<and> n \<le> MAX_GUESSES \<and> length fs = n \<and> length ws = n \<and>
           (distinct pw \<and> (\<forall>w\<in>set pw. length w = 5) \<longrightarrow>
              (\<forall>k<n - 1. fs ! k \<noteq> [2, 2, 2, 2, 2]) \<and>
              (fs ! (n - 1) = [2, 2, 2, 2, 2] \<or> n = MAX_GUESSES) \<and>
              (fs ! (n - 1) = [2, 2, 2, 2, 2] \<longleftrightarrow> ws ! (n - 1) = pw ! ai))"
  using g rem lens prev
proof (induction "MAX_GUESSES - guesses" arbitrary: guesses remaining gfs gws)
  case 0
  then show ?case by simp
next
  case (Suc k)
  let ?T = "table_of pw"
  let ?D = "distinct pw \<and> (\<forall>w\<in>set pw. length w = 5)"
  note g = Suc.prems(1) and rem = Suc.prems(2,3) and lens = Suc.prems(4,5) and prev = Suc.prems(6)
  have rows: "\<forall>gi\<in>set remaining. gi < length ?T \<and> (\<forall>r\<in>set remaining. r < length (?T ! gi))"
    using rem(2) by (simp add: table_of_shape)
  from rem(1) have ne: "remaining \<noteq> []" by auto
  obtain gi where choice: "(if Suc guesses = 1 then Inr (Some fixed)
        else best_entropy_guess_sim fl ?T remaining) = Inr (Some gi)"
    and gi: "gi < length pw"
  proof (cases "guesses = 0")
    case True
    with fixed that show ?thesis by simp
  next
    case False
    from best_entropy_guess_sim_ok [OF sane ne rows] obtain gi where
      "gi \<in> set remaining" "best_entropy_guess_sim fl ?T remaining = Inr (Some gi)"
      by blast
    with False rem(2) that show ?thesis by simp
  qed
  define fb where "fb = ?T ! gi ! ai"
  have cell: "cell_at ?T gi ai = Inr fb"
    using gi ai by (simp add: cell_at_def table_of_shape fb_def)
  have filt: "filter_remaining ?T gi remaining fb = Inr (filter (\<lambda>r. ?T ! gi ! r = fb) remaining)"
    using gi rem(2) by (intro filter_remaining_ok) (simp_all add: table_of_shape)
  have step: "game_loop fl pw ?T fixed ai guesses remaining gfs gws =
      (if gi = ai \<or> MAX_GUESSES \<le> Suc guesses
       then Inr (Suc guesses, gfs @ [fb_list fb], gws @ [pw ! gi])
       else game_loop fl pw ?T fixed ai (Suc guesses) (filter (\<lambda>r. ?T ! gi ! r = fb) remaining)
              (gfs @ [fb_list fb]) (gws @ [pw ! gi]))"
    by (subst game_loop.simps, subst choice) (use gi in \<open>simp add: cell filt\<close>)
  have solved: "fb_list fb = [2, 2, 2, 2, 2] \<longleftrightarrow> gi = ai" if ?D
    unfolding fb_def using that gi ai by (intro cell_all_correct_iff) simp_all
  have same_word: "pw ! gi = pw ! ai \<longleftrightarrow> gi = ai" if ?D
    using that gi ai by (simp add: nth_eq_iff_index_eq)
  have before: "\<forall>j<guesses. (gfs @ [fb_list fb]) ! j \<noteq> [2, 2, 2, 2, 2]" if ?D
    using that prev lens by (simp add: nth_append)
  show ?case
  proof (cases "gi = ai \<or> MAX_GUESSES \<le> Suc guesses")
    case True
    then have r: "game_loop fl pw ?T fixed ai guesses remaining gfs gws
        = Inr (Suc guesses, gfs @ [fb_list fb], gws @ [pw ! gi])"
      by (simp only: step if_True)
    have last: "(gfs @ [fb_list fb]) ! guesses = fb_list fb" "(gws @ [pw ! gi]) ! guesses = pw ! gi"
      using lens by (simp_all add: nth_append)
    have "?D \<longrightarrow>
              (\<forall>j<guesses. (gfs @ [fb_list fb]) ! j \<noteq> [2, 2, 2, 2, 2]) \<and>
              (fb_list fb = [2, 2, 2, 2, 2] \<or> Suc guesses = MAX_GUESSES) \<and>
              (fb_list fb = [2, 2, 2, 2, 2] \<longleftrightarrow> pw ! gi = pw ! ai)"
      using before solved same_word True g by auto
    with r g lens last show ?thesis by auto
  next
    case False
    then have ne_ai: "gi \<noteq> ai" and more: "Suc guesses < MAX_GUESSES" by simp_all
    from False have r: "game_loop fl pw ?T fixed ai guesses remaining gfs gws
        = game_loop fl pw ?T fixed ai (Suc guesses) (filter (\<lambda>r. ?T ! gi ! r = fb) remaining)
              (gfs @ [fb_list fb]) (gws @ [pw ! gi])"
      by (simp only: step if_False)
    have k: "k = MAX_GUESSES - Suc guesses" using Suc.hyps(2) by simp
    have rem': "ai \<in> set (filter (\<lambda>r. ?T ! gi ! r = fb) remaining)"
      "\<forall>r\<in>set (filter (\<lambda>r. ?T ! gi ! r = fb) remaining). r < length pw"
      using rem by (simp_all add: fb_def)
    have lens': "length (gfs @ [fb_list fb]) = Suc guesses" "length (gws @ [pw ! gi]) = Suc guesses"
      using lens by simp_all
    have prev': "?D \<longrightarrow> (\<forall>j<Suc guesses. (gfs @ [fb_list fb]) ! j \<noteq> [2, 2, 2, 2, 2])"
    proof
      assume D: ?D
      show "\<forall>j<Suc guesses. (gfs @ [fb_list fb]) ! j \<noteq> [2, 2, 2, 2, 2]"
      proof (intro allI impI)
        fix j assume "j < Suc guesses"
        then consider "j < guesses" | "j = guesses" by linarith
        then show "(gfs @ [fb_list fb]) ! j \<noteq> [2, 2, 2, 2, 2]"
        proof cases
          case 1
          with before [OF D] show ?thesis by simp
        next
          case 2
          with solved [OF D] ne_ai lens show ?thesis by (simp add: nth_append)
        qed
      qed
    qed
    from Suc.hyps(1) [OF k more rem' lens' prev'] obtain n fs ws where
      "game_loop fl pw ?T fixed ai (Suc guesses) (filter (\<lambda>r. ?T ! gi ! r = fb) remaining)
              (gfs @ [fb_list fb]) (gws @ [pw ! gi]) = Inr (n, fs, ws)"
      "Suc guesses < n" "n \<le> MAX_GUESSES" "length fs = n" "length ws = n"
      "?D \<longrightarrow>
              (\<forall>k<n - 1. fs ! k \<noteq> [2, 2, 2, 2, 2]) \<and>
              (fs ! (n - 1) = [2, 2, 2, 2, 2] \<or> n = MAX_GUESSES) \<and>
              (fs ! (n - 1) = [2, 2, 2, 2, 2] \<longleftrightarrow> ws ! (n - 1) = pw ! ai)"
      by blast
    then show ?thesis unfolding r
      by (intro exI [of _ n] exI [of _ fs] exI [of _ ws]) auto
  qed
qed

lemma list_index_in:
  "x \<in> set xs \<Longrightarrow> \<exists>k. list_index xs x = Some k \<and> k < length xs"
  using list_index_Some [of x xs] by blast

lemma table_raise_raise:
  "feedback_table [''raise'', ''raise''] = Inr [[242, 242], [242, 242]]"
  by code_simp

lemma counts_raise_raise:
  "filter (\<lambda>c. 0 < c) (bincount [242, 242] N_feedback) = [2]"
  by code_simp

lemma best_raise_raise:
  "best_entropy_guess_sim exact_ops [[242, 242], [242, 242]] [0, Suc 0] = Inr (Some 0)"
  by (simp add: best_entropy_guess_sim_def entropy_of_row_def row_at_def counts_raise_raise
      exact_ops_def)

lemma filter_raise_raise:
  "filter_remaining [[242, 242], [242, 242]] 0 [0, Suc 0] 242 = Inr [0, Suc 0]"
  by (simp add: filter_remaining_def row_at_def)

lemma fb_list_242: "fb_list 242 = [2, 2, 2, 2, 2]"
  by code_simp

text \<open>
  Claim C8 says that a game ends exactly when the feedback is all correct or the round
  limit is reached. The loop tests \<open>gi == ai\<close>, not the feedback: with the word list
  \<open>raise, raise\<close> and the second entry as the answer, the first guess is index 0, its
  feedback is all correct, and the game goes on to the sixth round. (The entropies here
  are 0, computed from 2/2 = 1 and \<open>log2 1 = 0\<close>, exact in doubles.)
\<close>

theorem simulate_game_duplicate_counterexample:
  "simulate_game exact_ops [''raise'', ''raise''] 1 =
     Inr (6, [[2, 2, 2, 2, 2], [2, 2, 2, 2, 2], [2, 2, 2, 2, 2], [2, 2, 2, 2, 2],
              [2, 2, 2, 2, 2], [2, 2, 2, 2, 2]],
          [''raise'', ''raise'', ''raise'', ''raise'', ''raise'', ''raise''])"
  by (simp add: simulate_game_def table_raise_raise game_loop.simps best_raise_raise
      cell_at_def filter_raise_raise fb_list_242 MAX_GUESSES_def)

text \<open>
  Claim C8, amended. For a word list of words of at least five letters that contains
  \<open>raise\<close>, and any answer of the list, one simulated game returns, and it has recorded
  between 1 and \<open>MAX_GUESSES\<close> (6) feedbacks and as many words. When the words of the
  list are distinct and have five letters, no feedback before the last is all correct,
  the last one is all correct or the game has \<open>MAX_GUESSES\<close> rounds, and the last feedback
  is all correct exactly when the last guess is the answer.
\<close>

theorem simulate_game_terminates:
  assumes "fl_sane fl" and "\<forall>w\<in>set pw. 5 \<le> length w" and "''raise'' \<in> set pw"
    and "ai < length pw"
  shows "\<exists>n fs ws.
           simulate_game fl pw ai = Inr (n, fs, ws) \<and>
           1 \<le> n \<and> n \<le> MAX_GUESSES \<and> length fs = n \<and> length ws = n \<and>
           (distinct pw \<and> (\<forall>w\<in>set pw. length w = 5) \<longrightarrow>
              (\<forall>k<n - 1. fs ! k \<noteq> [2, 2, 2, 2, 2]) \<and>
              (fs ! (n - 1) = [2, 2, 2, 2, 2] \<or> n = MAX_GUESSES) \<and>
              (fs ! (n - 1) = [2, 2, 2, 2, 2] \<longleftrightarrow> ws ! (n - 1) = pw ! ai))"
proof -
  from list_index_in [OF assms(3)] obtain fixed where
    fixed: "list_index pw ''raise'' = Some fixed" "fixed < length pw" by blast
  have sim: "simulate_game fl pw ai
      = game_loop fl pw (table_of pw) fixed ai 0 [0..<length pw] [] []"
    by (simp add: simulate_game_def feedback_table_ok [OF assms(2)] fixed(1))
  have "\<exists>n fs ws.
           game_loop fl pw (table_of pw) fixed ai 0 [0..<length pw] [] [] = Inr (n, fs, ws) \<and>
           0 < n \<and> n \<le> MAX_GUESSES \<and> length fs = n \<and> length ws = n \<and>
           (distinct pw \<and> (\<forall>w\<in>set pw. length w = 5) \<longrightarrow>
              (\<forall>k<n - 1. fs ! k \<noteq> [2, 2, 2, 2, 2]) \<and>
              (fs ! (n - 1) = [2, 2, 2, 2, 2] \<or> n = MAX_GUESSES) \<and>
              (fs ! (n - 1) = [2, 2, 2, 2, 2] \<longleftrightarrow> ws ! (n - 1) = pw ! ai))"
    by (rule game_loop_spec [OF assms(1,2) fixed(2) assms(4)])
       (use assms(4) in \<open>simp_all add: MAX_GUESSES_def\<close>)
  then show ?thesis unfolding sim by (simp add: Suc_le_eq)
qed


theorem simulate_game_terminates_witness:
  "\<exists>n fs ws. simulate_game exact_ops [''raise'', ''crane''] 1 = Inr (n, fs, ws) \<and>
     n \<le> MAX_GUESSES \<and> length fs = n \<and> (fs ! (n - 1) = [2, 2, 2, 2, 2] \<or> n = MAX_GUESSES)"
proof -
  have "\<forall>w\<in>set [''raise'', ''crane'']. 5 \<le> length w" and "''raise'' \<in> set [''raise'', ''crane'']"
    and "1 < length [''raise'', ''crane'']"
    and "distinct [''raise'', ''crane''] \<and> (\<forall>w\<in>set [''raise'', ''crane'']. length w = 5)"
    by simp_all
  with simulate_game_terminates [OF exact_ops_sane, of "[''raise'', ''crane'']" 1]
  show ?thesis by blast
qed

section \<open>Empty candidate sets\<close>

lemma filter_remaining_keeps:
  assumes "cell_at table gi ai = Inr fb" and "ai \<in> set remaining"
    and "filter_remaining table gi remaining fb = Inr remaining'"
  shows "ai \<in> set remaining'"
proof -
  from assms(1) have fb: "fb = table ! gi ! ai"
    by (auto simp: cell_at_def split: if_splits)
  from assms(3) have "remaining' = filter (\<lambda>r. table ! gi ! r = fb) remaining"
    by (auto simp: filter_remaining_def row_at_def zip_filter_map split: if_splits)
  with assms(2) fb show ?thesis by simp
qed

lemma submit_no_words_iff:
  assumes "length (lower (entry st)) = 5" and "lower (entry st) \<in> set allowed_words"
    and "tiles st \<noteq> [2, 2, 2, 2, 2]"
  shows "fst (submit fl allowed_words st) = ErrorNoWordsLeft
     \<longleftrightarrow> filter_words (words st) (lower (entry st)) (tiles st) = Inr []"
  using assms
  by (auto simp: submit_def Let_def split: sum.splits prod.splits)

lemma submit_no_words_state:
  assumes "fst (submit fl allowed_words st) = ErrorNoWordsLeft"
  shows "words (snd (submit fl allowed_words st)) = [] \<and> \<not> auto_solve (snd (submit fl allowed_words st))"
  using assms
  by (auto simp: submit_def Let_def split: sum.splits prod.splits if_splits)

text \<open>
  Claim C6. In the interactive solver, for a valid guess and a feedback that is not all
  correct, \<open>submit\<close> ends in the error box "No words left" exactly when the filter
  returns the empty list; the candidate list is then empty and auto-solving is off, and no
  other outcome (a refreshed window, a solved game) is reported for it. In the simulator
  the filter keeps the index of the answer, whose cell is the feedback filtered by, so it
  never returns the empty array.
\<close>

theorem empty_filter_is_error:
  "(length (lower (entry st)) = 5 \<and> lower (entry st) \<in> set allowed_words \<and>
    tiles st \<noteq> [2, 2, 2, 2, 2] \<longrightarrow>
      (fst (submit fl allowed_words st) = ErrorNoWordsLeft
         \<longleftrightarrow> filter_words (words st) (lower (entry st)) (tiles st) = Inr [])) \<and>
   (fst (submit fl allowed_words st) = ErrorNoWordsLeft \<longrightarrow>
      words (snd (submit fl allowed_words st)) = [] \<and>
      \<not> auto_solve (snd (submit fl allowed_words st))) \<and>
   (cell_at table gi ai = Inr fb \<and> ai \<in> set remaining \<and>
    filter_remaining table gi remaining fb = Inr remaining' \<longrightarrow> ai \<in> set remaining')"
  using submit_no_words_iff [of st allowed_words fl] submit_no_words_state [of fl allowed_words st]
    filter_remaining_keeps [of table gi ai fb remaining remaining']
  by blast

lemma lower_AAAAA: "lower ''AAAAA'' = ''aaaaa''"
  by code_simp

lemma filter_aaaaa: "filter_words [''abcde'', ''edcba''] ''aaaaa'' [2, 2, 2, 2, 0] = Inr []"
  by code_simp

theorem empty_filter_is_error_witness:
  "fst (submit exact_ops [''aaaaa'']
     \<lparr>words = [''abcde'', ''edcba''], auto_solve = True, entry = ''AAAAA'',
      tiles = [2, 2, 2, 2, 0], suggestion = (None, 0), entropy_cache = Map.empty\<rparr>)
   = ErrorNoWordsLeft"
proof -
  let ?st = "\<lparr>words = [''abcde'', ''edcba''], auto_solve = True, entry = ''AAAAA'',
      tiles = [2, 2, 2, 2, 0], suggestion = (None, 0), entropy_cache = Map.empty\<rparr>"
  have h: "length (lower (entry ?st)) = 5 \<and> lower (entry ?st) \<in> set [''aaaaa''] \<and>
      tiles ?st \<noteq> [2, 2, 2, 2, 2]"
    by (simp add: lower_AAAAA)
  have f: "filter_words (words ?st) (lower (entry ?st)) (tiles ?st) = Inr []"
    by (simp add: lower_AAAAA filter_aaaaa del: filter_words.simps)
  from empty_filter_is_error [of ?st "[''aaaaa'']" exact_ops] h f show ?thesis
    by blast
qed

end
